theory Spec2Isabelle
  imports Main "HOL-Library.AList"
begin

section \<open>The transform/pipeline engine of srag (src/srag/schema/pipeline.py)\<close>

text \<open>
  The engine composes transforms into a tree that processes a mutable state dictionary.
  Python objects that are mutated and compared by identity are modelled explicitly:
  \<^item> a state dictionary lives in a heap (a list of dictionaries, a reference is an index),
    so that in-place mutation and the difference between "the same object" and "an equal
    object" are visible;
  \<^item> a transform node is a value of the datatype \<open>BaseTransform\<close>; the fields that
    \<open>_init\<close> mutates (\<open>name\<close>, \<open>shared\<close>, \<open>_inited\<close>) are returned updated; a node
    object occurs once in its tree;
  \<^item> an exception is a value of type \<open>error\<close>; every function that can raise returns the
    error together with the heap and tree as they are at the moment of the raise;
  \<^item> hooks and listener handlers are atomic: they do not suspend, so each runs from its
    start to its end with no other task in between;
  \<^item> an anyio task group starts all its tasks before it is left and runs them in the order
    they were started; a task that fails does not keep the tasks started after it from
    running, and the group then raises the failures of its tasks together, as an exception
    group;
  \<^item> a broadcast to a non-empty list of listeners suspends the step that makes it until the
    listeners are done. A step that runs alone is resumed on the heap the listeners left.
    Children of a parallel node that broadcast to listeners interleave at these points:
    \<open>run_par\<close> describes them for the schedule in which each child runs to its end before
    the next one starts, which is the schedule of the code when the children do not suspend,
    and \<open>schedule\<close> describes the queue of the event loop.
  A leading underscore of a Python name is dropped (\<open>_init\<close> is \<open>init\<close>,
  \<open>_transforms\<close> is \<open>transforms\<close>), \<open>__call__\<close> is \<open>call\<close> and \<open>__stream__\<close> is
  \<open>stream\<close>.
\<close>

subsection \<open>Values, state dictionaries and the heap\<close>

datatype error = RuntimeError string | AttributeError | TypeError | Failure string
  | ExceptionGroup "error list"

definition ConfigurationError :: error where
  "ConfigurationError = RuntimeError ''SharedResource not provided.''"

text \<open>What leaving a task group raises: nothing when no task failed, else the failures.\<close>

fun failures :: "error option \<Rightarrow> error list" where
  "failures None = []"
| "failures (Some e) = [e]"

definition task_group_exit :: "error list \<Rightarrow> error option" where
  "task_group_exit errs = (if errs = [] then None else Some (ExceptionGroup errs))"

datatype pyval = PNone | PBool bool | PInt int | PStr string | PList "pyval list" | PRef nat

text \<open>A dictionary keeps insertion order; \<open>RAGState\<close> is a \<open>TypedDict\<close>, at run time a plain dict.\<close>

type_synonym dict = "(pyval \<times> pyval) list"
type_synonym RAGState = dict
type_synonym heap = "dict list"

definition dict_get :: "dict \<Rightarrow> pyval \<Rightarrow> pyval" where
  "dict_get d k = (case map_of d k of None \<Rightarrow> PNone | Some v \<Rightarrow> v)"

fun hashable :: "pyval \<Rightarrow> bool" where
  "hashable (PList _) = False"
| "hashable (PRef _) = False"
| "hashable _ = True"

text \<open>
  \<open>state.get(k)\<close> on a Python value: only a dictionary has the method (anything else raises
  AttributeError), and an unhashable key raises TypeError.
\<close>

definition state_get :: "heap \<Rightarrow> pyval \<Rightarrow> pyval \<Rightarrow> error + pyval" where
  "state_get h state k =
     (case state of
        PRef r \<Rightarrow>
          if r < length h then (if hashable k then Inr (dict_get (h ! r) k) else Inl TypeError)
          else Inl AttributeError
      | _ \<Rightarrow> Inl AttributeError)"

fun truthy :: "heap \<Rightarrow> pyval \<Rightarrow> bool" where
  "truthy h PNone = False"
| "truthy h (PBool b) = b"
| "truthy h (PInt i) = (i \<noteq> 0)"
| "truthy h (PStr s) = (s \<noteq> [])"
| "truthy h (PList l) = (l \<noteq> [])"
| "truthy h (PRef r) = (r < length h \<longrightarrow> h ! r \<noteq> [])"

subsection \<open>Listeners and the shared resource\<close>

text \<open>
  A handler receives the transform (its display name, the only field a handler is given
  here) and the state; it may mutate the heap and it may fail.
\<close>

type_synonym handler = "string \<Rightarrow> pyval \<Rightarrow> heap \<Rightarrow> error option \<times> heap"

record TransformListener =
  on_transform_enter :: handler
  on_transform_exit :: handler
  on_enter :: handler
  on_exit :: handler

definition pass :: handler where
  "pass nm state h = (None, h)"

definition TransformListener_default :: TransformListener where
  "TransformListener_default =
     \<lparr>on_transform_enter = pass, on_transform_exit = pass, on_enter = pass, on_exit = pass\<rparr>"

record TranformBatchListener =
  listeners :: "TransformListener list"

definition TranformBatchListener_init :: "TransformListener list option \<Rightarrow> TranformBatchListener" where
  "TranformBatchListener_init ls = \<lparr>listeners = (case ls of None \<Rightarrow> [] | Some l \<Rightarrow> l)\<rparr>"

text \<open>
  \<open>SharedResource\<close> objects are never mutated by the engine; \<open>addr\<close> is the identity of the
  instance, so two references denote the same instance exactly when the records are equal.
\<close>

record SharedResource =
  addr :: nat
  llm :: nat
  listener :: TranformBatchListener

text \<open>
  The task group of \<open>_on_event\<close>: the handler of every listener is started, and they run in
  that order, also after one of them has failed; the failures are collected.
\<close>

fun run_listeners ::
  "(TransformListener \<Rightarrow> handler) \<Rightarrow> TransformListener list \<Rightarrow> string \<Rightarrow> pyval \<Rightarrow> heap
     \<Rightarrow> error list \<times> heap" where
  "run_listeners event [] nm state h = ([], h)"
| "run_listeners event (l # ls) nm state h =
     (case event l nm state h of
        (r, h') \<Rightarrow>
          (case run_listeners event ls nm state h' of
             (errs, h'') \<Rightarrow> (failures r @ errs, h'')))"

definition on_event_construct ::
  "TranformBatchListener \<Rightarrow> (TransformListener \<Rightarrow> handler) \<Rightarrow> string \<Rightarrow> pyval \<Rightarrow> heap
     \<Rightarrow> error option \<times> heap" where
  "on_event_construct bl event nm state h =
     (if listeners bl = [] then (None, h)
      else (case run_listeners event (listeners bl) nm state h of
              (errs, h') \<Rightarrow> (task_group_exit errs, h')))"

subsection \<open>Transform nodes\<close>

datatype key_decl = KNone | KStr string | KList "string list"

fun key_val :: "key_decl \<Rightarrow> pyval" where
  "key_val KNone = PNone"
| "key_val (KStr s) = PStr s"
| "key_val (KList ks) = PList (map PStr ks)"

text \<open>
  The overridable hooks: \<open>transform(state, **kwargs)\<close> returns a value (usually the state
  reference) or raises; \<open>stream_transform\<close> yields finitely many values and then ends or
  raises. Both may mutate the heap.
\<close>

type_synonym hook = "pyval \<Rightarrow> dict \<Rightarrow> heap \<Rightarrow> (error + pyval) \<times> heap"
type_synonym stream_hook = "pyval \<Rightarrow> dict \<Rightarrow> heap \<Rightarrow> (pyval list \<times> error option) \<times> heap"

text \<open>
  \<open>attrs\<close> are the instance attributes whose value is a \<open>BaseTransform\<close>, in the order of
  \<open>__dict__\<close>; \<open>transforms\<close> is the declared list of children, \<open>None\<close> when absent.
  \<open>is_pipeline\<close> says that the object is an instance of \<open>BasePipeline\<close>, the class that
  overrides \<open>__call__\<close> with the signature \<open>(return_state, **kwargs)\<close>.
\<close>

datatype BaseTransform = BaseTransform
  (name: string)
  (input_key: key_decl)
  (output_key: key_decl)
  (shared: "SharedResource option")
  (attrs: "BaseTransform list")
  (transforms: "BaseTransform list option")
  (run_in_parallel: bool)
  (inited: bool)
  (transform: hook)
  (stream_transform: stream_hook)
  (is_pipeline: bool)

fun set_name :: "string \<Rightarrow> BaseTransform \<Rightarrow> BaseTransform" where
  "set_name v (BaseTransform nm ik ok sh as ts par ini tf stf pl) =
     BaseTransform v ik ok sh as ts par ini tf stf pl"

fun set_shared :: "SharedResource option \<Rightarrow> BaseTransform \<Rightarrow> BaseTransform" where
  "set_shared v (BaseTransform nm ik ok sh as ts par ini tf stf pl) =
     BaseTransform nm ik ok v as ts par ini tf stf pl"

fun set_attrs :: "BaseTransform list \<Rightarrow> BaseTransform \<Rightarrow> BaseTransform" where
  "set_attrs v (BaseTransform nm ik ok sh as ts par ini tf stf pl) =
     BaseTransform nm ik ok sh v ts par ini tf stf pl"

fun set_transforms :: "BaseTransform list option \<Rightarrow> BaseTransform \<Rightarrow> BaseTransform" where
  "set_transforms v (BaseTransform nm ik ok sh as ts par ini tf stf pl) =
     BaseTransform nm ik ok sh as v par ini tf stf pl"

fun set_inited :: "bool \<Rightarrow> BaseTransform \<Rightarrow> BaseTransform" where
  "set_inited v (BaseTransform nm ik ok sh as ts par ini tf stf pl) =
     BaseTransform nm ik ok sh as ts par v tf stf pl"

definition BaseTransform_transform :: hook where
  "BaseTransform_transform state kwargs h = (Inr state, h)"

definition BaseTransform_stream_transform :: "hook \<Rightarrow> stream_hook" where
  "BaseTransform_stream_transform tf state kwargs h =
     (case tf state [] h of
        (Inl e, h') \<Rightarrow> (([], Some e), h')
      | (Inr v, h') \<Rightarrow> (([v], None), h'))"

text \<open>
  \<open>BaseTransform.__init__\<close>; \<open>cls\<close> is the name of the class, \<open>tf\<close> and \<open>stf\<close> are the hooks of
  that class.
\<close>

definition BaseTransform_init ::
  "string \<Rightarrow> BaseTransform list option \<Rightarrow> bool \<Rightarrow> key_decl \<Rightarrow> key_decl \<Rightarrow> SharedResource option
     \<Rightarrow> hook \<Rightarrow> stream_hook \<Rightarrow> BaseTransform" where
  "BaseTransform_init cls ts par ik ok sh tf stf =
     BaseTransform cls ik ok sh [] ts par False tf stf False"

subsection \<open>Initialisation\<close>

definition rename :: "string \<Rightarrow> BaseTransform \<Rightarrow> BaseTransform" where
  "rename parent t = set_name (parent @ ''::'' @ name t) t"

text \<open>\<open>a or b\<close> on optional objects: an object is truthy, \<open>None\<close> is not.\<close>

definition py_or :: "'a option \<Rightarrow> 'a option \<Rightarrow> 'a option" where
  "py_or a b = (case a of Some x \<Rightarrow> Some x | None \<Rightarrow> b)"

fun nsize :: "BaseTransform \<Rightarrow> nat" where
  "nsize (BaseTransform nm ik ok sh as ts par ini tf stf pl) =
     Suc (sum_list (map nsize as) + (case ts of None \<Rightarrow> 0 | Some l \<Rightarrow> sum_list (map nsize l)))"

definition lsize :: "BaseTransform list \<Rightarrow> nat" where
  "lsize ts = sum_list (map nsize ts)"

lemma nsize_pos: "0 < nsize n"
  by (cases n) simp

lemma nsize_set_name [simp]: "nsize (set_name v n) = nsize n"
  by (cases n) simp

lemma nsize_set_shared [simp]: "nsize (set_shared v n) = nsize n"
  by (cases n) simp

lemma nsize_set_inited [simp]: "nsize (set_inited v n) = nsize n"
  by (cases n) simp

lemma nsize_rename [simp]: "nsize (rename p n) = nsize n"
  by (simp add: rename_def)

lemma lsize_simps [simp]:
  "lsize [] = 0"
  "lsize (t # ts) = nsize t + lsize ts"
  "lsize (xs @ ys) = lsize xs + lsize ys"
  by (simp_all add: lsize_def)

lemma lsize_map_rename [simp]: "lsize (map (rename p) ts) = lsize ts"
  by (induction ts) simp_all

lemma nsize_children: "transforms n = Some ts \<Longrightarrow> lsize (attrs n) + lsize ts < nsize n"
  by (cases n) (simp add: lsize_def)

text \<open>
  \<open>_init\<close>, \<open>_init_sub_transforms\<close> and the task group of the latter. The loop renames every
  element of \<open>_to_init\<close> and schedules its \<open>_init\<close>; the tasks run when the group is left.
  The conditional expression of the source binds weaker than \<open>+\<close>: \<open>_to_init\<close> is
  \<open>attrs + _transforms\<close> when the list is present and \<open>[]\<close> otherwise. The elements of
  \<open>_to_init\<close> are distinct objects here: a transform that is listed twice, or is both an
  attribute and a declared child, is one object that the loop of the source renames once per
  occurrence, and is not a tree of this datatype.
\<close>

function (sequential)
  init :: "SharedResource option \<Rightarrow> BaseTransform \<Rightarrow> error option \<times> BaseTransform"
  and init_sub_transforms :: "BaseTransform \<Rightarrow> error option \<times> BaseTransform"
  and init_tasks :: "SharedResource option \<Rightarrow> BaseTransform list \<Rightarrow> error list \<times> BaseTransform list"
where
  "init arg n =
     (if inited n then (None, n)
      else if shared n = None \<and> arg = None
        then (Some (RuntimeError ''SharedResource not provided.''), n)
      else (case init_sub_transforms (set_shared (py_or arg (shared n)) n) of
              (Some e, n') \<Rightarrow> (Some e, n')
            | (None, n') \<Rightarrow> (None, set_inited True n')))"
| "init_sub_transforms n =
     (let to_init0 = attrs n;
          to_init = (case transforms n of Some ts \<Rightarrow> to_init0 @ ts | None \<Rightarrow> [])
      in case transforms n of
           None \<Rightarrow> (None, n)
         | Some ts \<Rightarrow>
             (case init_tasks (shared n) (map (rename (name n)) to_init) of
                (errs, done) \<Rightarrow>
                  (task_group_exit errs,
                   set_attrs (take (length (attrs n)) done)
                     (set_transforms (Some (drop (length (attrs n)) done)) n))))"
| "init_tasks sh [] = ([], [])"
| "init_tasks sh (t # ts) =
     (case init sh t of
        (r, t') \<Rightarrow>
          (case init_tasks sh ts of (errs, ts') \<Rightarrow> (failures r @ errs, t' # ts')))"
  by pat_completeness auto

termination
  apply (relation "measure (\<lambda>x. case x of
            Inl (arg, n) \<Rightarrow> 3 * nsize n + 2
          | Inr (Inl n) \<Rightarrow> 3 * nsize n + 1
          | Inr (Inr (sh, ts)) \<Rightarrow> 3 * lsize ts + 3)")
      apply simp_all
   apply (frule nsize_children, simp)
  using nsize_pos apply simp
  done

declare init.simps [simp del] init_sub_transforms.simps [simp del]

lemma init_size:
  "nsize (snd (init arg n)) = nsize n"
  "nsize (snd (init_sub_transforms n)) = nsize n"
  "lsize (snd (init_tasks sh ts)) = lsize ts \<and> length (snd (init_tasks sh ts)) = length ts"
proof (induction arg n and n and sh ts rule: init_init_sub_transforms_init_tasks.induct)
  case (1 arg n)
  then show ?case
    by (subst init.simps) (auto split: prod.splits option.splits)
next
  case (2 n)
  show ?case
  proof (cases "transforms n")
    case None
    then show ?thesis by (simp add: init_sub_transforms.simps)
  next
    case (Some ts)
    obtain r dn where tk: "init_tasks (shared n) (map (rename (name n)) (attrs n @ ts)) = (r, dn)"
      by (cases "init_tasks (shared n) (map (rename (name n)) (attrs n @ ts))")
    from 2[OF refl refl Some] Some tk
    have sz: "lsize dn = lsize (attrs n) + lsize ts" and ln: "length dn = length (attrs n) + length ts"
      by simp_all
    have "lsize (take (length (attrs n)) dn) + lsize (drop (length (attrs n)) dn) = lsize dn"
      using lsize_simps(3)[of "take (length (attrs n)) dn" "drop (length (attrs n)) dn"] by simp
    with sz Some tk show ?thesis
      by (cases n) (simp add: init_sub_transforms.simps lsize_def)
  qed
next
  case (3 sh)
  then show ?case by simp
next
  case (4 sh t ts)
  then show ?case
    by (auto split: prod.splits option.splits)
qed

lemma init_nsize: "(r, y) = init arg n \<Longrightarrow> nsize y = nsize n"
  using init_size(1)[of arg n] by (metis snd_conv)

text \<open>\<open>initialize\<close> invoked \<open>N\<close> times in a row; a failing call ends the sequence.\<close>

fun initialize_times :: "nat \<Rightarrow> SharedResource option \<Rightarrow> BaseTransform \<Rightarrow> error option \<times> BaseTransform" where
  "initialize_times 0 arg n = (None, n)"
| "initialize_times (Suc k) arg n =
     (case init arg n of
        (Some e, n') \<Rightarrow> (Some e, n')
      | (None, n') \<Rightarrow> initialize_times k arg n')"

subsection \<open>Reading declared input keys\<close>

fun get_input_keys :: "heap \<Rightarrow> pyval \<Rightarrow> string list \<Rightarrow> dict \<Rightarrow> error + dict" where
  "get_input_keys h state [] acc = Inr acc"
| "get_input_keys h state (k # ks) acc =
     (case state_get h state (PStr k) of
        Inl e \<Rightarrow> Inl e
      | Inr v \<Rightarrow> get_input_keys h state ks (AList.update (PStr k) v acc))"

definition get_input :: "BaseTransform \<Rightarrow> pyval \<Rightarrow> heap \<Rightarrow> error + dict" where
  "get_input n state h =
     (case input_key n of
        KList ks \<Rightarrow> get_input_keys h state ks []
      | k \<Rightarrow> (case state_get h state (key_val k) of
                Inl e \<Rightarrow> Inl e
              | Inr v \<Rightarrow> Inr [(key_val k, v)]))"

subsection \<open>Execution\<close>

text \<open>\<open>self.shared.listener.on_...(self, state)\<close>: reading \<open>listener\<close> of \<open>None\<close> raises.\<close>

definition broadcast ::
  "BaseTransform \<Rightarrow> (TransformListener \<Rightarrow> handler) \<Rightarrow> pyval \<Rightarrow> heap \<Rightarrow> error option \<times> heap" where
  "broadcast n event state h =
     (case shared n of
        None \<Rightarrow> (Some AttributeError, h)
      | Some sr \<Rightarrow> on_event_construct (listener sr) event (name n) state h)"

text \<open>
  \<open>BaseTransform.__call__\<close> and \<open>_run_sub_transforms\<close>; \<open>run_seq\<close> is the sequential loop,
  \<open>run_par\<close> the task group of the parallel branch, whose tasks all receive the same
  \<open>state\<close>, all run, and whose return values are dropped. Both invoke a child as
  \<open>t.__call__(state)\<close>: for an instance of \<open>BasePipeline\<close> that is
  \<open>BasePipeline.__call__(return_state=state)\<close>, which runs \<open>BaseTransform.__call__\<close> on a new
  empty dictionary with the keyword argument \<open>return_state\<close>.
\<close>

function (sequential)
  call :: "BaseTransform \<Rightarrow> pyval \<Rightarrow> dict \<Rightarrow> heap \<Rightarrow> (error + pyval) \<times> BaseTransform \<times> heap"
  and run_sub_transforms :: "BaseTransform \<Rightarrow> pyval \<Rightarrow> heap \<Rightarrow> (error + pyval) \<times> BaseTransform \<times> heap"
  and run_seq :: "BaseTransform list \<Rightarrow> pyval \<Rightarrow> heap \<Rightarrow> (error + pyval) \<times> BaseTransform list \<times> heap"
  and run_par :: "BaseTransform list \<Rightarrow> pyval \<Rightarrow> heap \<Rightarrow> error list \<times> BaseTransform list \<times> heap"
where
  "call n state kwargs h =
     (case init None n of
        (Some e, n0) \<Rightarrow> (Inl e, n0, h)
      | (None, n0) \<Rightarrow>
          (case broadcast n0 on_transform_enter state h of
             (Some e, h1) \<Rightarrow> (Inl e, n0, h1)
           | (None, h1) \<Rightarrow>
               (case run_sub_transforms n0 state h1 of
                  (Inl e, n1, h2) \<Rightarrow> (Inl e, n1, h2)
                | (Inr state', n1, h2) \<Rightarrow>
                    (case transform n1 state' kwargs h2 of
                       (Inl e, h3) \<Rightarrow> (Inl e, n1, h3)
                     | (Inr ret, h3) \<Rightarrow>
                         (case broadcast n1 on_transform_exit state' h3 of
                            (Some e, h4) \<Rightarrow> (Inl e, n1, h4)
                          | (None, h4) \<Rightarrow> (Inr ret, n1, h4))))))"
| "run_sub_transforms n state h =
     (case transforms n of
        None \<Rightarrow> (Inr state, n, h)
      | Some ts \<Rightarrow>
          if run_in_parallel n then
            (case run_par ts state h of
               (errs, ts', h') \<Rightarrow>
                 (case task_group_exit errs of
                    Some e \<Rightarrow> (Inl e, set_transforms (Some ts') n, h')
                  | None \<Rightarrow> (Inr state, set_transforms (Some ts') n, h')))
          else
            (case run_seq ts state h of
               (r, ts', h') \<Rightarrow> (r, set_transforms (Some ts') n, h')))"
| "run_seq [] state h = (Inr state, [], h)"
| "run_seq (t # ts) state h =
     (case (if is_pipeline t
            then call t (PRef (length h)) [(PStr ''return_state'', state)] (h @ [[]])
            else call t state [] h) of
        (Inl e, t', h') \<Rightarrow> (Inl e, t' # ts, h')
      | (Inr state', t', h') \<Rightarrow>
          (case run_seq ts state' h' of (r, ts', h'') \<Rightarrow> (r, t' # ts', h'')))"
| "run_par [] state h = ([], [], h)"
| "run_par (t # ts) state h =
     (case (if is_pipeline t
            then call t (PRef (length h)) [(PStr ''return_state'', state)] (h @ [[]])
            else call t state [] h) of
        (r, t', h') \<Rightarrow>
          (case run_par ts state h' of
             (errs, ts', h'') \<Rightarrow>
               ((case r of Inl e \<Rightarrow> [e] | Inr _ \<Rightarrow> []) @ errs, t' # ts', h'')))"
  by pat_completeness auto

termination
  apply (relation "measure (\<lambda>x. case x of
            Inl (Inl (n, _)) \<Rightarrow> 3 * nsize n + 2
          | Inl (Inr (n, _)) \<Rightarrow> 3 * nsize n + 1
          | Inr (Inl (ts, _)) \<Rightarrow> 3 * lsize ts + 3
          | Inr (Inr (ts, _)) \<Rightarrow> 3 * lsize ts + 3)")
        apply simp_all
  subgoal for n state h x y xa ya by (simp add: init_nsize)
  subgoal for n ts using nsize_children[of n ts] by simp
  subgoal for n ts using nsize_children[of n ts] by simp
  subgoal for t by (rule nsize_pos)
  subgoal for t by (rule nsize_pos)
  done

declare call.simps [simp del] run_sub_transforms.simps [simp del]
  run_seq.simps(2) [simp del] run_par.simps(2) [simp del]

text \<open>\<open>t.__call__(state)\<close>, as the loops over the children invoke it.\<close>

definition child_call ::
  "BaseTransform \<Rightarrow> pyval \<Rightarrow> heap \<Rightarrow> (error + pyval) \<times> BaseTransform \<times> heap" where
  "child_call t state h =
     (if is_pipeline t
      then call t (PRef (length h)) [(PStr ''return_state'', state)] (h @ [[]])
      else call t state [] h)"

text \<open>
  \<open>__stream__\<close> and \<open>_run_sub_streams\<close>, consumed to the end: the values yielded, in order,
  and the exception that ended the generator, if any. In the sequential branch every child
  streams from the same \<open>state\<close>; the parallel branch runs \<open>__call__\<close> of the children and
  yields \<open>state\<close> once.
\<close>

function (sequential)
  stream :: "BaseTransform \<Rightarrow> pyval \<Rightarrow> dict \<Rightarrow> heap
     \<Rightarrow> (pyval list \<times> error option) \<times> BaseTransform \<times> heap"
  and run_sub_streams :: "BaseTransform \<Rightarrow> pyval \<Rightarrow> heap
     \<Rightarrow> (pyval list \<times> error option) \<times> BaseTransform \<times> heap"
  and stream_seq :: "BaseTransform list \<Rightarrow> pyval \<Rightarrow> heap
     \<Rightarrow> (pyval list \<times> error option) \<times> BaseTransform list \<times> heap"
where
  "stream n state kwargs h =
     (case init None n of
        (Some e, n0) \<Rightarrow> (([], Some e), n0, h)
      | (None, n0) \<Rightarrow>
          (case broadcast n0 on_transform_enter state h of
             (Some e, h1) \<Rightarrow> (([], Some e), n0, h1)
           | (None, h1) \<Rightarrow>
               (case run_sub_streams n0 state h1 of
                  ((ys, Some e), n1, h2) \<Rightarrow> ((ys, Some e), n1, h2)
                | ((ys, None), n1, h2) \<Rightarrow>
                    (case stream_transform n1 state kwargs h2 of
                       ((zs, Some e), h3) \<Rightarrow> ((ys @ zs, Some e), n1, h3)
                     | ((zs, None), h3) \<Rightarrow>
                         (case broadcast n1 on_transform_exit state h3 of
                            (r, h4) \<Rightarrow> ((ys @ zs, r), n1, h4))))))"
| "run_sub_streams n state h =
     (case transforms n of
        None \<Rightarrow> (([], None), n, h)
      | Some ts \<Rightarrow>
          if run_in_parallel n then
            (case run_par ts state h of
               (errs, ts', h') \<Rightarrow>
                 (case task_group_exit errs of
                    Some e \<Rightarrow> (([], Some e), set_transforms (Some ts') n, h')
                  | None \<Rightarrow> (([state], None), set_transforms (Some ts') n, h')))
          else
            (case stream_seq ts state h of
               (r, ts', h') \<Rightarrow> (r, set_transforms (Some ts') n, h')))"
| "stream_seq [] state h = (([], None), [], h)"
| "stream_seq (t # ts) state h =
     (case stream t state [] h of
        ((ys, Some e), t', h') \<Rightarrow> ((ys, Some e), t' # ts, h')
      | ((ys, None), t', h') \<Rightarrow>
          (case stream_seq ts state h' of
             ((zs, r), ts', h'') \<Rightarrow> ((ys @ zs, r), t' # ts', h'')))"
  by pat_completeness auto

termination
  apply (relation "measure (\<lambda>x. case x of
            Inl (n, _) \<Rightarrow> 3 * nsize n + 2
          | Inr (Inl (n, _)) \<Rightarrow> 3 * nsize n + 1
          | Inr (Inr (ts, _)) \<Rightarrow> 3 * lsize ts + 3)")
      apply simp_all
  subgoal for n state h x y xa ya by (simp add: init_nsize)
  subgoal for n ts using nsize_children[of n ts] by simp
  subgoal for t by (rule nsize_pos)
  done

declare stream.simps [simp del] run_sub_streams.simps [simp del]

subsection \<open>The pipeline root\<close>

text \<open>
  \<open>BasePipeline.transform(state, return_state=False)\<close> and
  \<open>BasePipeline.stream_transform\<close>; \<open>ok\<close> is the pipeline's \<open>output_key\<close>.
\<close>

definition BasePipeline_transform :: "key_decl \<Rightarrow> hook" where
  "BasePipeline_transform ok state kwargs h =
     (if truthy h (case map_of kwargs (PStr ''return_state'') of None \<Rightarrow> PBool False | Some b \<Rightarrow> b)
      then (Inr state, h)
      else (case state_get h state (key_val ok) of
              Inl e \<Rightarrow> (Inl e, h)
            | Inr v \<Rightarrow> (Inr v, h)))"

definition BasePipeline_stream_transform :: stream_hook where
  "BasePipeline_stream_transform state kwargs h = (([state], None), h)"

text \<open>
  \<open>BasePipeline.__init__\<close>: the resource is created here (\<open>a\<close> is the address of the new
  instance, \<open>llm\<close> the handle of the generation service).
\<close>

definition BasePipeline_init ::
  "string \<Rightarrow> BaseTransform list option \<Rightarrow> key_decl \<Rightarrow> key_decl \<Rightarrow> TransformListener list option
     \<Rightarrow> nat \<Rightarrow> nat \<Rightarrow> BaseTransform" where
  "BasePipeline_init cls ts ik ok ls llm_handle a =
     BaseTransform cls ik ok
       (Some \<lparr>addr = a, llm = llm_handle, listener = TranformBatchListener_init ls\<rparr>)
       [] ts False False (BasePipeline_transform ok) BasePipeline_stream_transform True"

text \<open>
  \<open>BasePipeline.__call__(return_state, **kwargs)\<close> and \<open>BasePipeline.stream(**kwargs)\<close>: the
  keyword arguments become a new dictionary, allocated at the end of the heap.
\<close>

definition BasePipeline_call ::
  "BaseTransform \<Rightarrow> bool \<Rightarrow> RAGState \<Rightarrow> heap \<Rightarrow> (error + pyval) \<times> BaseTransform \<times> heap" where
  "BasePipeline_call p return_state kwargs h =
     call p (PRef (length h)) [(PStr ''return_state'', PBool return_state)] (h @ [kwargs])"

definition BasePipeline_stream ::
  "BaseTransform \<Rightarrow> RAGState \<Rightarrow> heap \<Rightarrow> (pyval list \<times> error option) \<times> BaseTransform \<times> heap" where
  "BasePipeline_stream p kwargs h = stream p (PRef (length h)) [] (h @ [kwargs])"

subsection \<open>Steps as tasks of the event loop\<close>

text \<open>
  The functions above run a step to its end before anything else happens. The event loop
  of asyncio runs one task at a time, up to the point where the task suspends or ends, and
  then takes the next task from the front of its queue of ready tasks. In this engine a
  coroutine suspends exactly where it leaves a task group: \<open>start_soon\<close> puts the tasks of
  the group at the end of the queue, in that order, and the coroutine that leaves the group
  waits until all of them have ended; it is then put at the end of the queue itself (at once
  when the group has no tasks).

  A task is what remains to be executed of a coroutine. Run on the current heap up to its
  next suspension it either has finished, with the value it returns or the exception it
  raises, or it waits for the tasks of a group, and continues, once they have ended, from
  the failures they raised. The coroutines are written with the continuation \<open>k\<close> of the
  caller that awaits them.
\<close>

datatype task = Task "heap \<Rightarrow> outcome \<times> heap"
and outcome = Finished "error + pyval" | Waiting "task list" "error list \<Rightarrow> task"

fun run_task :: "task \<Rightarrow> heap \<Rightarrow> outcome \<times> heap" where
  "run_task (Task f) h = f h"

definition return_task :: "error + pyval \<Rightarrow> task" where
  "return_task r = Task (\<lambda>h. (Finished r, h))"

text \<open>A handler started by \<open>_on_event\<close>, and the broadcast that waits for the handlers.\<close>

definition listener_task :: "handler \<Rightarrow> string \<Rightarrow> pyval \<Rightarrow> task" where
  "listener_task hdl nm state =
     Task (\<lambda>h. case hdl nm state h of
                 (None, h') \<Rightarrow> (Finished (Inr PNone), h')
               | (Some e, h') \<Rightarrow> (Finished (Inl e), h'))"

definition broadcast_co ::
  "BaseTransform \<Rightarrow> (TransformListener \<Rightarrow> handler) \<Rightarrow> pyval \<Rightarrow> (error option \<Rightarrow> task) \<Rightarrow> task" where
  "broadcast_co n event state k =
     (case shared n of
        None \<Rightarrow> k (Some AttributeError)
      | Some sr \<Rightarrow>
          if listeners (listener sr) = [] then k None
          else Task (\<lambda>h. (Waiting (map (\<lambda>l. listener_task (event l) (name n) state) (listeners (listener sr)))
                                    (\<lambda>errs. k (task_group_exit errs)), h)))"

text \<open>
  \<open>_init\<close> reads and writes node objects only, and each node object is initialised by one
  task, so what it leaves does not depend on the schedule and is given by \<open>init\<close>.
  \<open>init_co\<close> is the course of \<open>_init\<close> as a task: it returns at once on an initialised
  node, and waits for the task group of \<open>_init_sub_transforms\<close> otherwise.
\<close>

lemma nsize_member: "t \<in> set ts \<Longrightarrow> nsize t \<le> lsize ts"
  by (induction ts) auto

lemma nsize_node_member:
  "transforms n = Some ts \<Longrightarrow> x \<in> set (attrs n) \<union> set ts \<Longrightarrow> nsize x < nsize n"
  using nsize_children[of n ts] nsize_member[of x "attrs n"] nsize_member[of x ts]
  by auto

function (sequential)
  init_co :: "SharedResource option \<Rightarrow> BaseTransform \<Rightarrow> task \<Rightarrow> task"
where
  "init_co arg n k =
     (if inited n \<or> (shared n = None \<and> arg = None) then k
      else (case transforms n of
              None \<Rightarrow> k
            | Some ts \<Rightarrow>
                Task (\<lambda>h. (Waiting
                   (map (\<lambda>t. init_co (py_or arg (shared n)) t
                               (return_task (case fst (init (py_or arg (shared n)) t) of
                                               None \<Rightarrow> Inr PNone | Some e \<Rightarrow> Inl e)))
                        (map (rename (name n)) (attrs n @ ts)))
                   (\<lambda>errs. k), h))))"
  by pat_completeness auto

termination
  apply (relation "measure (\<lambda>(arg, n, k). nsize n)")
   apply simp_all
  using nsize_node_member apply auto
  done

text \<open>
  \<open>BaseTransform.__call__\<close>, \<open>_run_sub_transforms\<close>, its sequential loop and
  \<open>t.__call__(state)\<close> as the loops invoke it. The hooks are atomic; a started child
  returns its value to nobody.
\<close>

function (sequential)
  call_co :: "BaseTransform \<Rightarrow> pyval \<Rightarrow> dict \<Rightarrow> (error + pyval \<Rightarrow> task) \<Rightarrow> task"
  and run_sub_co :: "BaseTransform \<Rightarrow> pyval \<Rightarrow> (error + pyval \<Rightarrow> task) \<Rightarrow> task"
  and run_seq_co :: "BaseTransform list \<Rightarrow> pyval \<Rightarrow> (error + pyval \<Rightarrow> task) \<Rightarrow> task"
  and child_co :: "BaseTransform \<Rightarrow> pyval \<Rightarrow> (error + pyval \<Rightarrow> task) \<Rightarrow> task"
where
  "call_co n state kwargs k =
     init_co None n
       (case init None n of
          (Some e, n0) \<Rightarrow> k (Inl e)
        | (None, n0) \<Rightarrow>
            broadcast_co n0 on_transform_enter state
              (\<lambda>r. case r of
                     Some e \<Rightarrow> k (Inl e)
                   | None \<Rightarrow>
                       run_sub_co n0 state
                         (\<lambda>r. case r of
                                Inl e \<Rightarrow> k (Inl e)
                              | Inr state' \<Rightarrow>
                                  Task (\<lambda>h. case transform n0 state' kwargs h of
                                              (Inl e, h') \<Rightarrow> run_task (k (Inl e)) h'
                                            | (Inr ret, h') \<Rightarrow>
                                                run_task
                                                  (broadcast_co n0 on_transform_exit state'
                                                     (\<lambda>r. case r of
                                                            Some e \<Rightarrow> k (Inl e)
                                                          | None \<Rightarrow> k (Inr ret))) h'))))"
| "run_sub_co n state k =
     (case transforms n of
        None \<Rightarrow> k (Inr state)
      | Some ts \<Rightarrow>
          if run_in_parallel n then
            Task (\<lambda>h. (Waiting (map (\<lambda>t. child_co t state return_task) ts)
                               (\<lambda>errs. case task_group_exit errs of
                                          Some e \<Rightarrow> k (Inl e)
                                        | None \<Rightarrow> k (Inr state)), h))
          else run_seq_co ts state k)"
| "run_seq_co [] state k = k (Inr state)"
| "run_seq_co (t # ts) state k =
     child_co t state
       (\<lambda>r. case r of
              Inl e \<Rightarrow> k (Inl e)
            | Inr state' \<Rightarrow> run_seq_co ts state' k)"
| "child_co t state k =
     (if is_pipeline t
      then Task (\<lambda>h. run_task (call_co t (PRef (length h)) [(PStr ''return_state'', state)] k)
                        (h @ [[]]))
      else call_co t state [] k)"
  by pat_completeness auto

termination
  apply (relation "measure (\<lambda>x. case x of
            Inl (Inl (n, _)) \<Rightarrow> 4 * nsize n + 2
          | Inl (Inr (n, _)) \<Rightarrow> 4 * nsize n + 1
          | Inr (Inl (ts, _)) \<Rightarrow> 4 * lsize ts + 4
          | Inr (Inr (t, _)) \<Rightarrow> 4 * nsize t + 3)")
        apply simp_all
  subgoal for n x y by (simp add: init_nsize)
  subgoal for n ts x using nsize_node_member[of n ts x] by simp
  subgoal for n ts using nsize_children[of n ts] by simp
  subgoal for t by (rule nsize_pos)
  done


declare init_co.simps [simp del] call_co.simps [simp del] run_sub_co.simps [simp del]
  run_seq_co.simps(2) [simp del] child_co.simps [simp del]

text \<open>
  A task group that is being waited for: the number of its tasks that have not ended, the
  failures raised so far, the coroutine that waits, and the group that coroutine belongs to
  (\<open>None\<close> for the main task). Groups are numbered in the order in which they are left.
\<close>

record group =
  pending :: nat
  raised :: "error list"
  resume :: "error list \<Rightarrow> task"
  host :: "nat option"

text \<open>
  \<open>segment\<close> runs the task at the front of the queue up to its next suspension. When a task
  of a group fails, anyio cancels the group: its tasks that have not started still run up to
  their first suspension, and its tasks that are suspended are cancelled there. What a
  cancelled task does is not described: the run is \<open>Cancelled\<close> as soon as a cancellation
  would be delivered, that is when a task fails while another task of its group waits for a
  group, and when a task of a group with a failure suspends. \<open>schedule\<close> runs the queue
  until the main task has ended; \<open>Unfinished\<close> says that the fuel did not suffice.
\<close>

datatype 'a run = Ended 'a | Unfinished | Cancelled

fun failure_of :: "error + pyval \<Rightarrow> error list" where
  "failure_of (Inl e) = [e]"
| "failure_of (Inr v) = []"

definition segment ::
  "task \<Rightarrow> nat option \<Rightarrow> (task \<times> nat option) list \<Rightarrow> group list \<Rightarrow> heap
     \<Rightarrow> ((error + pyval) \<times> heap) run + (task \<times> nat option) list \<times> group list \<times> heap" where
  "segment t g q gs h =
     (case run_task t h of
        (Finished r, h') \<Rightarrow>
          (case g of
             None \<Rightarrow> Inl (Ended (r, h'))
           | Some i \<Rightarrow>
               (let errs = raised (gs ! i) @ failure_of r in
                if pending (gs ! i) = 1
                then Inr (q @ [(resume (gs ! i) errs, host (gs ! i))],
                          gs[i := (gs ! i)\<lparr>pending := 0, raised := errs\<rparr>], h')
                else if errs \<noteq> [] \<and> (\<exists>w \<in> set gs. host w = Some i \<and> 0 < pending w)
                then Inl Cancelled
                else Inr (q, gs[i := (gs ! i)\<lparr>pending := pending (gs ! i) - 1, raised := errs\<rparr>], h')))
      | (Waiting ts k, h') \<Rightarrow>
          if (case g of None \<Rightarrow> False | Some i \<Rightarrow> raised (gs ! i) \<noteq> []) then Inl Cancelled
          else if ts = [] then Inr (q @ [(k [], g)], gs, h')
          else Inr (q @ map (\<lambda>t. (t, Some (length gs))) ts,
                    gs @ [\<lparr>pending = length ts, raised = [], resume = k, host = g\<rparr>], h'))"

fun schedule ::
  "nat \<Rightarrow> (task \<times> nat option) list \<Rightarrow> group list \<Rightarrow> heap \<Rightarrow> ((error + pyval) \<times> heap) run" where
  "schedule 0 q gs h = Unfinished"
| "schedule (Suc fuel) [] gs h = Unfinished"
| "schedule (Suc fuel) ((t, g) # q) gs h =
     (case segment t g q gs h of
        Inl r \<Rightarrow> r
      | Inr (q', gs', h') \<Rightarrow> schedule fuel q' gs' h')"


subsection \<open>Notions used in the statements\<close>

text \<open>The keys a node declares as its input, as \<open>_get_input\<close> reads them.\<close>

definition declared_keys :: "BaseTransform \<Rightarrow> pyval list" where
  "declared_keys n = (case input_key n of KList ks \<Rightarrow> map PStr ks | k \<Rightarrow> [key_val k])"

text \<open>Listeners whose handlers for the two events of a step do nothing.\<close>

definition noop_listeners :: "TransformListener list \<Rightarrow> bool" where
  "noop_listeners ls =
     (\<forall>l \<in> set ls. \<forall>nm state h.
        on_transform_enter l nm state h = (None, h) \<and> on_transform_exit l nm state h = (None, h))"

text \<open>Folding the children's \<open>transform\<close> over a state by hand, each child receiving the state
  the previous one returned; a failing child ends the fold.\<close>

fun fold_transforms :: "BaseTransform list \<Rightarrow> pyval \<Rightarrow> heap \<Rightarrow> (error + pyval) \<times> heap" where
  "fold_transforms [] state h = (Inr state, h)"
| "fold_transforms (c # cs) state h =
     (case transform c state [] h of
        (Inl e, h') \<Rightarrow> (Inl e, h')
      | (Inr state', h') \<Rightarrow> fold_transforms cs state' h')"

text \<open>A leaf that inherits \<open>__call__\<close> and holds a resource whose listeners are no-ops.\<close>

definition leaf_ready :: "BaseTransform \<Rightarrow> bool" where
  "leaf_ready c =
     (transforms c = None \<and> \<not> is_pipeline c
      \<and> (\<exists>sc. shared c = Some sc \<and> noop_listeners (listeners (listener sc))))"

text \<open>A child \<open>c\<close> of \<open>p\<close> that is such a leaf once \<open>p\<close> has been initialised: either \<open>p\<close>
  initialises it on this run and hands it its own resource, or it holds a resource already.\<close>

definition leaf_child :: "BaseTransform \<Rightarrow> BaseTransform \<Rightarrow> bool" where
  "leaf_child p c =
     (transforms c = None \<and> \<not> is_pipeline c
      \<and> ((\<not> inited p \<and> \<not> inited c)
         \<or> (\<exists>sc. shared c = Some sc \<and> noop_listeners (listeners (listener sc)))))"

text \<open>The transform tree: a node and, through the declared lists of children, its descendants,
  in preorder.\<close>

fun declared_nodes :: "BaseTransform \<Rightarrow> BaseTransform list" where
  "declared_nodes (BaseTransform nm ik ok sh as ts par ini tf stf pl) =
     BaseTransform nm ik ok sh as ts par ini tf stf pl #
       (case ts of None \<Rightarrow> [] | Some l \<Rightarrow> concat (map declared_nodes l))"

text \<open>A tree as its constructors leave it: no node of it is initialised yet.\<close>

definition fresh :: "BaseTransform \<Rightarrow> bool" where
  "fresh n = (\<forall>m \<in> set (declared_nodes n). \<not> inited m)"

text \<open>The display names of the tree after one renaming of every child: \<open>nm\<close> is the name of
  the root, a child's name is its parent's name, \<open>::\<close> and its own class name.\<close>

fun qualified_names :: "string \<Rightarrow> BaseTransform \<Rightarrow> string list" where
  "qualified_names nm (BaseTransform nm0 ik ok sh as ts par ini tf stf pl) =
     nm # (case ts of None \<Rightarrow> []
           | Some l \<Rightarrow> concat (map (\<lambda>c. qualified_names (nm @ ''::'' @ name c) c) l))"

text \<open>The same tree wired with another list of listeners: every resource of the tree gets
  the dispatcher \<open>TranformBatchListener(ls)\<close>.\<close>

definition with_listeners :: "TransformListener list \<Rightarrow> SharedResource \<Rightarrow> SharedResource" where
  "with_listeners ls sr = sr\<lparr>listener := \<lparr>listeners = ls\<rparr>\<rparr>"

fun set_listeners :: "TransformListener list \<Rightarrow> BaseTransform \<Rightarrow> BaseTransform" where
  "set_listeners ls (BaseTransform nm ik ok sh as ts par ini tf stf pl) =
     BaseTransform nm ik ok (map_option (with_listeners ls) sh)
       (map (set_listeners ls) as) (map_option (map (set_listeners ls)) ts) par ini tf stf pl"

text \<open>A tree in which no node runs its children in parallel.\<close>

fun sequential :: "BaseTransform \<Rightarrow> bool" where
  "sequential (BaseTransform nm ik ok sh as ts par ini tf stf pl) =
     (\<not> par \<and> (case ts of None \<Rightarrow> True | Some l \<Rightarrow> \<forall>t \<in> set l. sequential t))"

subsection \<open>Concrete nodes and states used as instances\<close>

definition bare_node :: BaseTransform where
  "bare_node = BaseTransform_init ''Retriever'' None False KNone KNone None
     BaseTransform_transform (BaseTransform_stream_transform BaseTransform_transform)"

definition reader :: BaseTransform where
  "reader = BaseTransform_init ''Reader'' None False (KStr ''nonexistent'') KNone None
     BaseTransform_transform (BaseTransform_stream_transform BaseTransform_transform)"

definition sample_state :: RAGState where
  "sample_state = [(PStr ''query'', PStr ''hi'')]"

definition default_resource :: SharedResource where
  "default_resource = \<lparr>addr = 0, llm = 0, listener = TranformBatchListener_init None\<rparr>"

text \<open>\<open>state["response"] = v; return state\<close>\<close>

definition write_response :: "pyval \<Rightarrow> hook" where
  "write_response v state kwargs h =
     (case state of
        PRef r \<Rightarrow>
          if r < length h then (Inr state, h[r := AList.update (PStr ''response'') v (h ! r)])
          else (Inl TypeError, h)
      | _ \<Rightarrow> (Inl TypeError, h))"

definition failing_listener :: TransformListener where
  "failing_listener = TransformListener_default
     \<lparr>on_transform_enter := (\<lambda>nm state h. (Some (Failure ''listener failed''), h))\<rparr>"

text \<open>A listener that appends to the heap a record of the transform and state it was given.\<close>

definition recording_listener :: TransformListener where
  "recording_listener = TransformListener_default
     \<lparr>on_transform_exit := (\<lambda>nm state h. (None, h @ [[(PStr nm, state)]]))\<rparr>"

definition answering :: BaseTransform where
  "answering = BaseTransform_init ''Generation'' None False KNone KNone None
     (write_response (PStr ''answer''))
     (BaseTransform_stream_transform (write_response (PStr ''answer'')))"

definition entry_recording_listener :: TransformListener where
  "entry_recording_listener = TransformListener_default
     \<lparr>on_transform_enter := (\<lambda>nm state h. (None, h @ [[(PStr nm, state)]]))\<rparr>"

definition guarded_pipeline :: BaseTransform where
  "guarded_pipeline = BasePipeline_init ''BasePipeline'' (Some [answering]) KNone (KStr ''response'')
     (Some [failing_listener, entry_recording_listener]) 0 0"

definition recorded_pipeline :: BaseTransform where
  "recorded_pipeline = BasePipeline_init ''BasePipeline'' None KNone (KStr ''query'')
     (Some [recording_listener]) 0 0"


definition prompt_agent :: BaseTransform where
  "prompt_agent = set_attrs [answering]
     (BaseTransform_init ''PromptAgent'' None False KNone KNone (Some default_resource)
        BaseTransform_transform (BaseTransform_stream_transform BaseTransform_transform))"

text \<open>A leaf whose \<open>stream_transform\<close> yields three new partial states; \<open>transform\<close> is inherited.\<close>

definition three_states :: stream_hook where
  "three_states state kwargs h =
     (([PRef (length h), PRef (length h + 1), PRef (length h + 2)], None),
      h @ [[(PStr ''response'', PStr ''a'')], [(PStr ''response'', PStr ''ab'')],
           [(PStr ''response'', PStr ''abc'')]])"

definition streaming_leaf :: BaseTransform where
  "streaming_leaf = BaseTransform_init ''Generation'' None False KNone KNone None
     BaseTransform_transform three_states"

definition one_leaf_pipeline :: BaseTransform where
  "one_leaf_pipeline = BasePipeline_init ''BasePipeline'' (Some [streaming_leaf])
     (KList [''query'', ''history'', ''doc_ids'']) (KStr ''response'') None 0 0"

definition observed_leaf_pipeline :: BaseTransform where
  "observed_leaf_pipeline = BasePipeline_init ''BasePipeline'' (Some [streaming_leaf])
     (KList [''query'', ''history'', ''doc_ids'']) (KStr ''response'')
     (Some [TransformListener_default]) 0 0"

definition drafting :: BaseTransform where
  "drafting = BaseTransform_init ''Draft'' None False KNone KNone None
     (write_response (PStr ''draft''))
     (BaseTransform_stream_transform (write_response (PStr ''draft'')))"

definition two_step_pipeline :: BaseTransform where
  "two_step_pipeline = BasePipeline_init ''BasePipeline'' (Some [drafting, answering])
     (KList [''query'', ''history'', ''doc_ids'']) (KStr ''response'') None 0 0"

definition staged :: BaseTransform where
  "staged = BaseTransform_init ''Stage'' (Some [answering]) False KNone KNone None
     BaseTransform_transform (BaseTransform_stream_transform BaseTransform_transform)"

definition own_resource :: SharedResource where
  "own_resource = \<lparr>addr = 1, llm = 0, listener = TranformBatchListener_init None\<rparr>"

text \<open>A transform constructed with a resource of its own and initialised by itself.\<close>

definition seasoned_generation :: BaseTransform where
  "seasoned_generation = snd (init None
     (BaseTransform_init ''Generation'' None False KNone KNone (Some own_resource)
        (write_response (PStr ''answer''))
        (BaseTransform_stream_transform (write_response (PStr ''answer'')))))"

definition reused_pipeline :: BaseTransform where
  "reused_pipeline = BasePipeline_init ''BasePipeline'' (Some [seasoned_generation])
     (KList [''query'', ''history'', ''doc_ids'']) (KStr ''response'') None 0 0"

definition nested_pipeline :: BaseTransform where
  "nested_pipeline = BasePipeline_init ''BasePipeline'' (Some [staged, bare_node])
     (KList [''query'', ''history'', ''doc_ids'']) (KStr ''response'') None 0 7"


section \<open>Properties\<close>

subsection \<open>Initialisation never fails below the root\<close>

lemma init_ok:
  "arg \<noteq> None \<or> shared n \<noteq> None \<or> inited n \<Longrightarrow> fst (init arg n) = None"
  "shared n \<noteq> None \<Longrightarrow> fst (init_sub_transforms n) = None"
  "sh \<noteq> None \<Longrightarrow> fst (init_tasks sh ts) = []"
proof (induction arg n and n and sh ts rule: init_init_sub_transforms_init_tasks.induct)
  case (1 arg n)
  show ?case
  proof (cases "inited n")
    case True
    then show ?thesis by (simp add: init.simps)
  next
    case False
    have sh: "shared (set_shared (py_or arg (shared n)) n) \<noteq> None"
      using 1(2) False by (cases n) (auto simp: py_or_def split: option.splits)
    have nn: "\<not> (shared n = None \<and> arg = None)"
      using 1(2) False by auto
    from 1(1)[OF False nn sh] False nn show ?thesis
      by (subst init.simps) (auto split: prod.splits option.splits)
  qed
next
  case (2 n)
  show ?case
  proof (cases "transforms n")
    case None
    then show ?thesis by (simp add: init_sub_transforms.simps)
  next
    case (Some ts)
    from 2(1)[OF refl refl Some 2(2)] Some show ?thesis
      by (auto simp: init_sub_transforms.simps task_group_exit_def split: prod.splits)
  qed
next
  case (3 sh)
  then show ?case by simp
next
  case (4 sh t ts)
  obtain r t' where i: "init sh t = (r, t')"
    by (cases "init sh t")
  have "r = None"
    using 4(1) 4(3) i by simp
  moreover have "fst (init_tasks sh ts) = []"
    using 4(2)[OF i[symmetric] 4(3)] .
  ultimately show ?case
    using i by (auto split: prod.splits)
qed

text \<open>
  Claim C6. A node on which the one-shot flag is set only after a resource was assigned
  (what the constructor and \<open>_init\<close> guarantee): \<open>initialize\<close> fails, with the error
  ''SharedResource not provided.'', exactly when neither the argument nor the node
  provides a resource; with a resource available it does not fail at all.
\<close>

theorem initialize_fails_iff_no_resource:
  assumes "inited n \<longrightarrow> shared n \<noteq> None"
  shows "(fst (init arg n) = Some ConfigurationError \<longleftrightarrow> arg = None \<and> shared n = None)
       \<and> (fst (init arg n) = None \<longleftrightarrow> \<not> (arg = None \<and> shared n = None))"
proof (cases "arg = None \<and> shared n = None")
  case True
  with assms have "\<not> inited n" by auto
  with True show ?thesis
    by (simp add: init.simps ConfigurationError_def)
next
  case False
  then have "fst (init arg n) = None"
    using init_ok(1)[of arg n] by auto
  with False show ?thesis by auto
qed

theorem initialize_fails_iff_no_resource_witness:
  "\<not> inited bare_node
   \<and> fst (init None bare_node) = Some ConfigurationError
   \<and> fst (init (Some \<lparr>addr = 0, llm = 0, listener = TranformBatchListener_init None\<rparr>) bare_node) = None"
  using initialize_fails_iff_no_resource[of bare_node None]
    initialize_fails_iff_no_resource[of bare_node
      "Some \<lparr>addr = 0, llm = 0, listener = TranformBatchListener_init None\<rparr>"]
  by (simp add: bare_node_def BaseTransform_init_def)

subsection \<open>Reading absent keys\<close>

lemma dict_get_absent: "k \<notin> fst ` set d \<Longrightarrow> dict_get d k = PNone"
  by (simp add: dict_get_def map_of_eq_None_iff[THEN iffD2])

lemma get_input_keys_ok:
  "r < length h \<Longrightarrow>
   \<exists>d. get_input_keys h (PRef r) ks acc = Inr d \<and>
       (\<forall>k. map_of d k = (if k \<in> PStr ` set ks then Some (dict_get (h ! r) k) else map_of acc k))"
proof (induction ks arbitrary: acc)
  case Nil
  then show ?case by simp
next
  case (Cons a ks)
  from Cons.IH[OF Cons.prems, of "AList.update (PStr a) (dict_get (h ! r) (PStr a)) acc"]
  obtain d where d: "get_input_keys h (PRef r) ks (AList.update (PStr a) (dict_get (h ! r) (PStr a)) acc) = Inr d"
    and m: "\<forall>k. map_of d k = (if k \<in> PStr ` set ks then Some (dict_get (h ! r) k)
                 else map_of (AList.update (PStr a) (dict_get (h ! r) (PStr a)) acc) k)"
    by blast
  from Cons.prems d have "get_input_keys h (PRef r) (a # ks) acc = Inr d"
    by (simp add: state_get_def)
  moreover from m have "\<forall>k. map_of d k = (if k \<in> PStr ` set (a # ks) then Some (dict_get (h ! r) k) else map_of acc k)"
    by (auto simp: update_conv')
  ultimately show ?case by blast
qed

lemma get_input_ok:
  assumes "r < length h"
  shows "\<exists>d. get_input n (PRef r) h = Inr d \<and>
           (\<forall>k \<in> set (declared_keys n). map_of d k = Some (dict_get (h ! r) k))"
proof (cases "input_key n")
  case KNone
  with assms show ?thesis by (simp add: get_input_def declared_keys_def state_get_def)
next
  case (KStr s)
  with assms show ?thesis by (simp add: get_input_def declared_keys_def state_get_def)
next
  case (KList ks)
  from get_input_keys_ok[OF assms, of ks "[]"] KList show ?thesis
    by (auto simp: get_input_def declared_keys_def)
qed

text \<open>
  Claim C7. Reading a key that a state dictionary does not hold yields \<open>None\<close>, the
  explicit absent marker, and no error; \<open>_get_input\<close> on such a state never fails and
  maps every declared input key that is absent to \<open>None\<close>.
\<close>

theorem absent_key_reads_none:
  assumes "r < length h"
  shows "(hashable k \<and> k \<notin> fst ` set (h ! r) \<longrightarrow> state_get h (PRef r) k = Inr PNone)
       \<and> (\<exists>d. get_input n (PRef r) h = Inr d
              \<and> (\<forall>k \<in> set (declared_keys n). k \<notin> fst ` set (h ! r) \<longrightarrow> map_of d k = Some PNone))"
proof -
  from get_input_ok[OF assms, of n] obtain d where
    "get_input n (PRef r) h = Inr d" "\<forall>k \<in> set (declared_keys n). map_of d k = Some (dict_get (h ! r) k)"
    by blast
  then show ?thesis using assms by (auto simp: state_get_def dict_get_absent)
qed

theorem absent_key_reads_none_witness:
  "(0::nat) < length [[(PStr ''query'', PStr ''hi'')]]
   \<and> state_get [[(PStr ''query'', PStr ''hi'')]] (PRef 0) (PStr ''nonexistent'') = Inr PNone
   \<and> get_input reader (PRef 0) [[(PStr ''query'', PStr ''hi'')]] = Inr [(PStr ''nonexistent'', PNone)]"
  using absent_key_reads_none[of 0 "[[(PStr ''query'', PStr ''hi'')]]" "PStr ''nonexistent''" reader]
  by (simp add: reader_def BaseTransform_init_def get_input_def state_get_def dict_get_def)

subsection \<open>The shape of an initialised node\<close>

lemma setter_simps [simp]:
  "name (set_name v0 n) = v0"
  "input_key (set_name v0 n) = input_key n"
  "output_key (set_name v0 n) = output_key n"
  "shared (set_name v0 n) = shared n"
  "attrs (set_name v0 n) = attrs n"
  "transforms (set_name v0 n) = transforms n"
  "run_in_parallel (set_name v0 n) = run_in_parallel n"
  "inited (set_name v0 n) = inited n"
  "transform (set_name v0 n) = transform n"
  "stream_transform (set_name v0 n) = stream_transform n"
  "is_pipeline (set_name v0 n) = is_pipeline n"
  "name (set_shared v1 n) = name n"
  "input_key (set_shared v1 n) = input_key n"
  "output_key (set_shared v1 n) = output_key n"
  "shared (set_shared v1 n) = v1"
  "attrs (set_shared v1 n) = attrs n"
  "transforms (set_shared v1 n) = transforms n"
  "run_in_parallel (set_shared v1 n) = run_in_parallel n"
  "inited (set_shared v1 n) = inited n"
  "transform (set_shared v1 n) = transform n"
  "stream_transform (set_shared v1 n) = stream_transform n"
  "is_pipeline (set_shared v1 n) = is_pipeline n"
  "name (set_attrs v2 n) = name n"
  "input_key (set_attrs v2 n) = input_key n"
  "output_key (set_attrs v2 n) = output_key n"
  "shared (set_attrs v2 n) = shared n"
  "attrs (set_attrs v2 n) = v2"
  "transforms (set_attrs v2 n) = transforms n"
  "run_in_parallel (set_attrs v2 n) = run_in_parallel n"
  "inited (set_attrs v2 n) = inited n"
  "transform (set_attrs v2 n) = transform n"
  "stream_transform (set_attrs v2 n) = stream_transform n"
  "is_pipeline (set_attrs v2 n) = is_pipeline n"
  "name (set_transforms v3 n) = name n"
  "input_key (set_transforms v3 n) = input_key n"
  "output_key (set_transforms v3 n) = output_key n"
  "shared (set_transforms v3 n) = shared n"
  "attrs (set_transforms v3 n) = attrs n"
  "transforms (set_transforms v3 n) = v3"
  "run_in_parallel (set_transforms v3 n) = run_in_parallel n"
  "inited (set_transforms v3 n) = inited n"
  "transform (set_transforms v3 n) = transform n"
  "stream_transform (set_transforms v3 n) = stream_transform n"
  "is_pipeline (set_transforms v3 n) = is_pipeline n"
  "name (set_inited v4 n) = name n"
  "input_key (set_inited v4 n) = input_key n"
  "output_key (set_inited v4 n) = output_key n"
  "shared (set_inited v4 n) = shared n"
  "attrs (set_inited v4 n) = attrs n"
  "transforms (set_inited v4 n) = transforms n"
  "run_in_parallel (set_inited v4 n) = run_in_parallel n"
  "inited (set_inited v4 n) = v4"
  "transform (set_inited v4 n) = transform n"
  "stream_transform (set_inited v4 n) = stream_transform n"
  "is_pipeline (set_inited v4 n) = is_pipeline n"
  by (cases n; simp)+

lemma rename_simps [simp]:
  "name (rename p n) = p @ ''::'' @ name n"
  "input_key (rename p n) = input_key n"
  "output_key (rename p n) = output_key n"
  "shared (rename p n) = shared n"
  "attrs (rename p n) = attrs n"
  "transforms (rename p n) = transforms n"
  "run_in_parallel (rename p n) = run_in_parallel n"
  "inited (rename p n) = inited n"
  "transform (rename p n) = transform n"
  "stream_transform (rename p n) = stream_transform n"
  "is_pipeline (rename p n) = is_pipeline n"
  by (simp_all add: rename_def)

lemma init_inited: "inited n \<Longrightarrow> init arg n = (None, n)"
  by (simp add: init.simps)

lemma init_tasks_map: "init_tasks (Some s) ts = ([], map (\<lambda>t. snd (init (Some s) t)) ts)"
proof (induction ts)
  case Nil
  then show ?case by simp
next
  case (Cons t ts)
  have "fst (init (Some s) t) = None" by (rule init_ok(1)) simp
  then obtain t' where "init (Some s) t = (None, t')" by (cases "init (Some s) t") simp
  with Cons show ?case by simp
qed

lemma init_sub_transforms_None: "transforms n = None \<Longrightarrow> init_sub_transforms n = (None, n)"
  by (simp add: init_sub_transforms.simps)

lemma init_sub_transforms_Some:
  assumes "shared n = Some s" "transforms n = Some ts"
  shows "init_sub_transforms n =
    (None, set_attrs (map (\<lambda>t. snd (init (Some s) (rename (name n) t))) (attrs n))
             (set_transforms (Some (map (\<lambda>t. snd (init (Some s) (rename (name n) t))) ts)) n))"
  using assms
  by (simp add: init_sub_transforms.simps init_tasks_map task_group_exit_def comp_def drop_map take_map)

lemma init_fresh:
  assumes "\<not> inited n" "py_or arg (shared n) = Some s"
  shows "init arg n =
    (None, set_inited True
       (case transforms n of
          None \<Rightarrow> set_shared (Some s) n
        | Some ts \<Rightarrow>
            set_attrs (map (\<lambda>t. snd (init (Some s) (rename (name n) t))) (attrs n))
              (set_transforms (Some (map (\<lambda>t. snd (init (Some s) (rename (name n) t))) ts))
                 (set_shared (Some s) n))))"
proof -
  from assms have nn: "\<not> (shared n = None \<and> arg = None)"
    by (auto simp: py_or_def)
  show ?thesis
  proof (cases "transforms n")
    case None
    with assms nn show ?thesis
      by (subst init.simps) (simp add: init_sub_transforms_None)
  next
    case (Some ts)
    with assms nn show ?thesis
      by (subst init.simps) (simp add: init_sub_transforms_Some[where s = s and ts = ts])
  qed
qed

lemma init_fields [simp]:
  "name (snd (init arg n)) = name n"
  "input_key (snd (init arg n)) = input_key n"
  "output_key (snd (init arg n)) = output_key n"
  "run_in_parallel (snd (init arg n)) = run_in_parallel n"
  "transform (snd (init arg n)) = transform n"
  "stream_transform (snd (init arg n)) = stream_transform n"
  "is_pipeline (snd (init arg n)) = is_pipeline n"
  "(transforms (snd (init arg n)) = None) = (transforms n = None)"
proof -
  consider "inited n" | "\<not> inited n" "shared n = None \<and> arg = None"
    | s where "\<not> inited n" "py_or arg (shared n) = Some s"
    by (cases arg; cases "shared n") (auto simp: py_or_def)
  then have "name (snd (init arg n)) = name n
    \<and> input_key (snd (init arg n)) = input_key n
    \<and> output_key (snd (init arg n)) = output_key n
    \<and> run_in_parallel (snd (init arg n)) = run_in_parallel n
    \<and> transform (snd (init arg n)) = transform n
    \<and> stream_transform (snd (init arg n)) = stream_transform n
    \<and> is_pipeline (snd (init arg n)) = is_pipeline n
    \<and> (transforms (snd (init arg n)) = None) = (transforms n = None)"
  proof cases
    case 1
    then show ?thesis by (simp add: init_inited)
  next
    case 2
    then show ?thesis by (simp add: init.simps)
  next
    case 3
    then show ?thesis by (simp add: init_fresh split: option.splits)
  qed
  then show
    "name (snd (init arg n)) = name n"
    "input_key (snd (init arg n)) = input_key n"
    "output_key (snd (init arg n)) = output_key n"
    "run_in_parallel (snd (init arg n)) = run_in_parallel n"
    "transform (snd (init arg n)) = transform n"
    "stream_transform (snd (init arg n)) = stream_transform n"
    "is_pipeline (snd (init arg n)) = is_pipeline n"
    "(transforms (snd (init arg n)) = None) = (transforms n = None)"
    by simp_all
qed

lemma init_result_inited: "fst (init arg n) = None \<Longrightarrow> inited (snd (init arg n))"
proof (cases "inited n")
  case True
  then show ?thesis by (simp add: init_inited)
next
  case False
  assume ok: "fst (init arg n) = None"
  with False have "\<not> (shared n = None \<and> arg = None)"
    by (auto simp: init.simps split: if_splits)
  then obtain s where "py_or arg (shared n) = Some s"
    by (cases arg; cases "shared n") (auto simp: py_or_def)
  with False show ?thesis by (simp add: init_fresh split: option.splits)
qed

lemma init_result_shared:
  "\<not> inited n \<Longrightarrow> fst (init arg n) = None \<Longrightarrow> shared (snd (init arg n)) = py_or arg (shared n)"
proof -
  assume f: "\<not> inited n" and ok: "fst (init arg n) = None"
  then have "\<not> (shared n = None \<and> arg = None)"
    by (auto simp: init.simps split: if_splits)
  then obtain s where "py_or arg (shared n) = Some s"
    by (cases arg; cases "shared n") (auto simp: py_or_def)
  with f show ?thesis by (simp add: init_fresh split: option.splits)
qed

subsection \<open>Evaluation of concrete instances\<close>

lemmas eval_defs = call.simps run_sub_transforms.simps run_seq.simps run_par.simps
  init.simps init_sub_transforms.simps
  broadcast_def on_event_construct_def task_group_exit_def py_or_def rename_def
  BaseTransform_init_def
  BasePipeline_init_def TranformBatchListener_init_def TransformListener_default_def pass_def
  BaseTransform_transform_def BaseTransform_stream_transform_def BasePipeline_transform_def
  BasePipeline_stream_transform_def state_get_def dict_get_def

subsection \<open>Listener failure on entering a step\<close>

lemma run_listeners_fail:
  "l \<in> set ls \<Longrightarrow> \<forall>h'. fst (event l nm state h') \<noteq> None \<Longrightarrow>
   fst (run_listeners event ls nm state h) \<noteq> []"
proof (induction ls arbitrary: h)
  case Nil
  then show ?case by simp
next
  case (Cons a ls)
  obtain r h2 where ev: "event a nm state h = (r, h2)"
    by (cases "event a nm state h")
  obtain errs h3 where rest: "run_listeners event ls nm state h2 = (errs, h3)"
    by (cases "run_listeners event ls nm state h2")
  show ?case
  proof (cases "a = l")
    case True
    with Cons.prems(2) ev have "r \<noteq> None"
      by (metis fst_conv)
    then have "failures r \<noteq> []" by (cases r) simp_all
    with ev rest show ?thesis by simp
  next
    case False
    with Cons.prems have "l \<in> set ls" by simp
    from Cons.IH[OF this Cons.prems(2), of h2] rest have "errs \<noteq> []" by simp
    with ev rest show ?thesis by simp
  qed
qed

text \<open>
  Claim C5. When a listener fails on the \<open>on_transform_enter\<close> broadcast of a step, the step
  ends with the failure that the broadcast raises, the failures of its listeners as one
  group. The tree and heap it leaves are exactly those left by initialisation and by the
  handlers of the broadcast, all of which have run to their end by then: neither the
  children nor the node's own \<open>transform\<close> are executed.
\<close>

theorem enter_failure_aborts_step:
  assumes "init None n = (None, n0)"
    and "shared n0 = Some sr"
    and "l \<in> set (listeners (listener sr))"
    and "\<forall>h'. fst (on_transform_enter l (name n0) state h') \<noteq> None"
  shows "\<exists>errs h1.
           run_listeners on_transform_enter (listeners (listener sr)) (name n0) state h = (errs, h1)
         \<and> errs \<noteq> []
         \<and> call n state kwargs h = (Inl (ExceptionGroup errs), n0, h1)"
proof -
  obtain errs h1 where
    r: "run_listeners on_transform_enter (listeners (listener sr)) (name n0) state h = (errs, h1)"
    by (cases "run_listeners on_transform_enter (listeners (listener sr)) (name n0) state h")
  from run_listeners_fail[where event = on_transform_enter and l = l and nm = "name n0"
      and state = state and h = h, OF assms(3,4)] r
  have ne: "errs \<noteq> []" by simp
  from assms(3) have "listeners (listener sr) \<noteq> []" by auto
  with r ne assms(2) have "broadcast n0 on_transform_enter state h = (Some (ExceptionGroup errs), h1)"
    by (simp add: broadcast_def on_event_construct_def task_group_exit_def)
  with assms(1) have "call n state kwargs h = (Inl (ExceptionGroup errs), n0, h1)"
    by (simp add: call.simps)
  with r ne show ?thesis by blast
qed

theorem enter_failure_aborts_step_witness:
  "fst (init None guarded_pipeline) = None
   \<and> failing_listener \<in> set [failing_listener, entry_recording_listener]
   \<and> call guarded_pipeline (PRef 0) [] [sample_state]
       = (Inl (ExceptionGroup [Failure ''listener failed'']), snd (init None guarded_pipeline),
          [sample_state, [(PStr ''BasePipeline'', PRef 0)]])"
proof -
  have i0: "fst (init None guarded_pipeline) = None"
    by (simp add: guarded_pipeline_def answering_def eval_defs)
  then obtain g0 where i: "init None guarded_pipeline = (None, g0)"
    by (cases "init None guarded_pipeline") simp
  have s: "shared g0
     = Some \<lparr>addr = 0, llm = 0, listener = \<lparr>listeners = [failing_listener, entry_recording_listener]\<rparr>\<rparr>"
    and nm: "name g0 = ''BasePipeline''"
    using i by (auto simp: guarded_pipeline_def answering_def eval_defs)
  have f: "\<forall>h'. fst (on_transform_enter failing_listener (name g0) (PRef 0) h') \<noteq> None"
    by (simp add: failing_listener_def)
  from enter_failure_aborts_step[OF i s _ f, of "[sample_state]" "[]"] i i0 nm
  show ?thesis
    by (auto simp: failing_listener_def entry_recording_listener_def
        TransformListener_default_def pass_def)
qed

subsection \<open>What a successful step did\<close>

lemma call_success:
  assumes "call n state kwargs h = (Inr ret, n', h')"
  shows "\<exists>n0 h1 s h2 h3.
           init None n = (None, n0)
         \<and> broadcast n0 on_transform_enter state h = (None, h1)
         \<and> run_sub_transforms n0 state h1 = (Inr s, n', h2)
         \<and> transform n' s kwargs h2 = (Inr ret, h3)
         \<and> broadcast n' on_transform_exit s h3 = (None, h')"
  using assms
  by (subst (asm) call.simps) (auto split: prod.splits option.splits sum.splits)

text \<open>
  Claim C10. A successful step broadcasts \<open>on_transform_exit\<close> with the state \<open>s\<close> that
  \<open>_run_sub_transforms\<close> produced and that was passed to the node's own \<open>transform\<close>, and
  returns what \<open>transform\<close> returned: when that is another object, as for the projection of
  \<open>BasePipeline.transform\<close>, the exit listeners observe a state that is not the result.
\<close>

theorem exit_event_carries_transform_input:
  assumes "call n state kwargs h = (Inr ret, n', h')"
  shows "\<exists>n0 h1 s h2 h3.
           init None n = (None, n0)
         \<and> broadcast n0 on_transform_enter state h = (None, h1)
         \<and> run_sub_transforms n0 state h1 = (Inr s, n', h2)
         \<and> transform n' s kwargs h2 = (Inr ret, h3)
         \<and> broadcast n' on_transform_exit s h3 = (None, h')"
  using assms by (rule call_success)

theorem exit_event_carries_transform_input_witness:
  "call recorded_pipeline (PRef 0) [] [sample_state]
     = (Inr (PStr ''hi''), snd (init None recorded_pipeline),
        [sample_state, [(PStr ''BasePipeline'', PRef 0)]])
   \<and> broadcast (snd (init None recorded_pipeline)) on_transform_exit (PRef 0) [sample_state]
     = (None, [sample_state, [(PStr ''BasePipeline'', PRef 0)]])"
proof -
  have c: "call recorded_pipeline (PRef 0) [] [sample_state]
     = (Inr (PStr ''hi''), snd (init None recorded_pipeline),
        [sample_state, [(PStr ''BasePipeline'', PRef 0)]])"
    by (simp add: recorded_pipeline_def recording_listener_def sample_state_def eval_defs)
  from exit_event_carries_transform_input[OF c] c show ?thesis
    by (simp add: recorded_pipeline_def recording_listener_def sample_state_def eval_defs)
qed

subsection \<open>Parallel children\<close>

lemma run_seq_Cons:
  "run_seq (t # ts) state h =
     (case child_call t state h of
        (Inl e, t', h') \<Rightarrow> (Inl e, t' # ts, h')
      | (Inr state', t', h') \<Rightarrow>
          (case run_seq ts state' h' of (r, ts', h'') \<Rightarrow> (r, t' # ts', h'')))"
  by (simp add: child_call_def run_seq.simps(2))






subsection \<open>Embedded sub-transforms\<close>

text \<open>
  Claim C1, at a node that embeds a sub-transform as an attribute and declares no list of
  children: \<open>_init\<close> marks the node initialised and leaves the embedded transform as it
  was, not renamed, without resource and not initialised, so that its first use raises
  ''SharedResource not provided.''. The same node with an empty declared list renames and
  initialises the embedded transform.
\<close>

theorem embedded_transform_without_children_list:
  "init None prompt_agent = (None, set_inited True prompt_agent)
   \<and> attrs (snd (init None prompt_agent)) = [answering]
   \<and> name answering = ''Generation''
   \<and> shared answering = None
   \<and> \<not> inited answering
   \<and> fst (call answering (PRef 0) [] [sample_state]) = Inl ConfigurationError
   \<and> map name (attrs (snd (init None (set_transforms (Some []) prompt_agent))))
       = [''PromptAgent::Generation'']
   \<and> map shared (attrs (snd (init None (set_transforms (Some []) prompt_agent))))
       = [Some default_resource]
   \<and> map inited (attrs (snd (init None (set_transforms (Some []) prompt_agent)))) = [True]"
  by (simp add: prompt_agent_def answering_def default_resource_def ConfigurationError_def eval_defs)

subsection \<open>Listeners without effect, and leaves\<close>

lemma run_listeners_noop:
  "noop_listeners ls \<Longrightarrow> run_listeners on_transform_enter ls nm state h = ([], h)"
  "noop_listeners ls \<Longrightarrow> run_listeners on_transform_exit ls nm state h = ([], h)"
  by (induction ls) (simp_all add: noop_listeners_def)

lemma broadcast_noop:
  assumes "shared n = Some sr" "noop_listeners (listeners (listener sr))"
  shows "broadcast n on_transform_enter state h = (None, h)"
    and "broadcast n on_transform_exit state h = (None, h)"
  using assms
  by (simp_all add: broadcast_def on_event_construct_def run_listeners_noop task_group_exit_def)

text \<open>A leaf that holds a resource, initialised or not, runs as its \<open>transform\<close>.\<close>

lemma call_leaf_any:
  assumes "transforms n = None" "shared n = Some sr"
    "noop_listeners (listeners (listener sr))"
  shows "call n state kwargs h
       = (case transform n state kwargs h of (r, h') \<Rightarrow> (r, snd (init None n), h'))"
proof -
  have "fst (init None n) = None"
    using init_ok(1)[of None n] assms(2) by simp
  then obtain n1 where i: "init None n = (None, n1)"
    by (cases "init None n") simp
  then have n1: "snd (init None n) = n1" by simp
  have sh: "shared n1 = Some sr"
  proof (cases "inited n")
    case True
    with i assms(2) show ?thesis by (simp add: init_inited)
  next
    case False
    from init_result_shared[OF False, of None] i assms(2) show ?thesis
      by (simp add: py_or_def)
  qed
  have tr: "transforms n1 = None" and tf: "transform n1 = transform n"
    using init_fields(8)[of None n] init_fields(5)[of None n] assms(1) unfolding n1 by simp_all
  show ?thesis
    unfolding n1
    by (subst call.simps)
      (simp add: i tr tf broadcast_noop[OF sh assms(3)] run_sub_transforms.simps
        split: prod.splits sum.splits)
qed

lemma call_leaf:
  assumes "inited n" "transforms n = None" "shared n = Some sr"
    "noop_listeners (listeners (listener sr))"
  shows "call n state kwargs h = (case transform n state kwargs h of (r, h') \<Rightarrow> (r, n, h'))"
  using call_leaf_any[OF assms(2-4)] assms(1) by (simp add: init_inited)

lemma stream_leaf:
  assumes "inited n" "transforms n = None" "shared n = Some sr"
    "noop_listeners (listeners (listener sr))"
  shows "stream n state kwargs h = (case stream_transform n state kwargs h of (r, h') \<Rightarrow> (r, n, h'))"
  using assms
  by (subst stream.simps)
    (simp add: init_inited broadcast_noop[OF assms(3,4)] run_sub_streams.simps
      split: prod.splits option.splits)

lemma init_leaf:
  assumes "\<not> inited c" "transforms c = None"
  shows "init (Some sr) c = (None, set_inited True (set_shared (Some sr) c))"
  using assms by (simp add: init_fresh[where s = sr] py_or_def)

subsection \<open>Sequential children\<close>

lemma fold_transforms_map:
  "\<forall>c \<in> set cs. transform (f c) = transform c \<Longrightarrow>
   fold_transforms (map f cs) state h = fold_transforms cs state h"
  by (induction cs arbitrary: state h) (auto split: prod.splits sum.splits)

lemma run_seq_leaves:
  "\<forall>c \<in> set cs. leaf_ready c \<Longrightarrow>
   (case run_seq cs state h of (r, cs', h') \<Rightarrow> (r, h')) = fold_transforms cs state h"
proof (induction cs arbitrary: state h)
  case Nil
  then show ?case by simp
next
  case (Cons c cs)
  then obtain sc where c: "transforms c = None" "shared c = Some sc"
    "noop_listeners (listeners (listener sc))" and np: "\<not> is_pipeline c"
    by (auto simp: leaf_ready_def)
  from Cons have rest: "\<And>state h.
      (case run_seq cs state h of (r, cs', h') \<Rightarrow> (r, h')) = fold_transforms cs state h"
    by simp
  have cc: "child_call c state h
      = (case transform c state [] h of (r, h') \<Rightarrow> (r, snd (init None c), h'))"
    using np by (simp add: child_call_def call_leaf_any[OF c])
  show ?case
  proof (cases "transform c state [] h")
    case (Pair r h1)
    show ?thesis
    proof (cases r)
      case (Inl e)
      with Pair cc show ?thesis by (simp add: run_seq_Cons)
    next
      case (Inr s1)
      with Pair cc rest[of s1 h1] show ?thesis
        by (simp add: run_seq_Cons split: prod.splits)
    qed
  qed
qed

text \<open>The children of a node after its own \<open>_init\<close>, when they were leaves before it.\<close>

lemma init_root_children:
  assumes "transforms p = Some cs" and "shared p = Some sr"
    and "noop_listeners (listeners (listener sr))"
    and "\<forall>c \<in> set cs. leaf_child p c"
  shows "\<exists>p0 cs0. init None p = (None, p0) \<and> shared p0 = Some sr
           \<and> run_in_parallel p0 = run_in_parallel p \<and> transform p0 = transform p
           \<and> transforms p0 = Some cs0 \<and> (\<forall>c \<in> set cs0. leaf_ready c)
           \<and> map transform cs0 = map transform cs"
proof (cases "inited p")
  case True
  have "\<forall>c \<in> set cs. leaf_ready c"
    using assms(4) True by (auto simp: leaf_child_def leaf_ready_def)
  with True assms(1,2) show ?thesis
    by (simp add: init_inited)
next
  case False
  let ?g = "\<lambda>t. snd (init (Some sr) (rename (name p) t))"
  have po: "py_or None (shared p) = Some sr"
    using assms(2) by (simp add: py_or_def)
  have eq: "init None p = (None, set_inited True
       (set_attrs (map ?g (attrs p)) (set_transforms (Some (map ?g cs)) (set_shared (Some sr) p))))"
    using init_fresh[OF False po] assms(1) by simp
  have rdy: "\<forall>c \<in> set (map ?g cs). leaf_ready c"
  proof
    fix c' assume "c' \<in> set (map ?g cs)"
    then obtain c where c: "c \<in> set cs" and c': "c' = ?g c" by auto
    from assms(4) c have lc: "leaf_child p c" by simp
    then have tr: "transforms c = None" and np: "\<not> is_pipeline c"
      by (simp_all add: leaf_child_def)
    have "\<exists>sc. shared c' = Some sc \<and> noop_listeners (listeners (listener sc))"
    proof (cases "inited c")
      case True
      with lc False obtain sc where "shared c = Some sc" "noop_listeners (listeners (listener sc))"
        by (auto simp: leaf_child_def)
      with True show ?thesis unfolding c' by (simp add: init_inited)
    next
      case ni: False
      then have "init (Some sr) (rename (name p) c)
          = (None, set_inited True (set_shared (Some sr) (rename (name p) c)))"
        using tr by (simp add: init_leaf)
      with assms(3) show ?thesis unfolding c' by simp
    qed
    with tr np show "leaf_ready c'"
      unfolding c' by (simp add: leaf_ready_def)
  qed
  have "map transform (map ?g cs) = map transform cs"
    by simp
  with rdy show ?thesis
    unfolding eq by simp
qed

lemma fold_transforms_cong:
  "map transform cs = map transform cs' \<Longrightarrow> fold_transforms cs state h = fold_transforms cs' state h"
proof (induction cs arbitrary: cs' state h)
  case Nil
  then show ?case by simp
next
  case (Cons c cs)
  then obtain d ds where d: "cs' = d # ds" "transform c = transform d" "map transform cs = map transform ds"
    by (cases cs') auto
  with Cons.IH[OF d(3)] show ?case
    by (simp split: prod.splits sum.splits)
qed

lemma sequential_run_leaves:
  assumes "transforms p = Some cs" and "\<not> run_in_parallel p"
    and "shared p = Some sr" and "noop_listeners (listeners (listener sr))"
    and "\<forall>c \<in> set cs. leaf_child p c"
  shows "(case call p state kwargs h of (r, p', h') \<Rightarrow> (r, h'))
       = (case fold_transforms cs state h of
            (Inl e, h1) \<Rightarrow> (Inl e, h1)
          | (Inr s, h1) \<Rightarrow> transform p s kwargs h1)"
proof -
  from init_root_children[OF assms(1,3,4,5)] obtain p0 cs0 where
    i0: "init None p = (None, p0)" and sh: "shared p0 = Some sr"
    and par: "run_in_parallel p0 = run_in_parallel p" and tf: "transform p0 = transform p"
    and ts: "transforms p0 = Some cs0" and rdy: "\<forall>c \<in> set cs0. leaf_ready c"
    and hooks: "map transform cs0 = map transform cs"
    by blast
  obtain r cs1 h1 where rs: "run_seq cs0 state h = (r, cs1, h1)"
    by (cases "run_seq cs0 state h")
  have fold: "fold_transforms cs state h = (r, h1)"
    using run_seq_leaves[OF rdy, of state h] rs fold_transforms_cong[OF hooks, of state h] by simp
  have sub: "run_sub_transforms p0 state h = (r, set_transforms (Some cs1) p0, h1)"
    using ts par assms(2) rs by (simp add: run_sub_transforms.simps)
  have sh1: "shared (set_transforms (Some cs1) p0) = Some sr"
    using sh by simp
  show ?thesis
    unfolding fold
    by (subst call.simps)
      (simp add: i0 tf broadcast_noop[OF sh assms(4)] broadcast_noop[OF sh1 assms(4)] sub
        split: prod.splits sum.splits)
qed

text \<open>
  Claim C3, amended. A node with a resource whose listeners are no-ops, and with sequential
  children that are leaves, inherit \<open>__call__\<close> and, as far as they are not initialised by
  the node itself on this run, hold a resource whose listeners are no-ops (so on the first
  run of a new tree and on every later run): \<open>run\<close> threads the state through the children
  exactly as folding their \<open>transform\<close> over the input state by hand does, the same state
  value and the same heap, failures included, and returns what the node's own \<open>transform\<close>
  makes of the folded state.
\<close>

theorem sequential_run_is_fold:
  assumes "transforms p = Some cs" and "\<not> run_in_parallel p"
    and "shared p = Some sr" and "noop_listeners (listeners (listener sr))"
    and "\<forall>c \<in> set cs. leaf_child p c"
  shows "(case call p state kwargs h of (r, p', h') \<Rightarrow> (r, h'))
       = (case fold_transforms cs state h of
            (Inl e, h1) \<Rightarrow> (Inl e, h1)
          | (Inr s, h1) \<Rightarrow> transform p s kwargs h1)"
  using assms by (rule sequential_run_leaves)

theorem sequential_run_is_fold_witness:
  "transforms two_step_pipeline = Some [drafting, answering]
   \<and> \<not> run_in_parallel two_step_pipeline
   \<and> leaf_child two_step_pipeline drafting \<and> leaf_child two_step_pipeline answering
   \<and> fold_transforms [drafting, answering] (PRef 0) [sample_state]
        = (Inr (PRef 0), [[(PStr ''query'', PStr ''hi''), (PStr ''response'', PStr ''answer'')]])
   \<and> (case call two_step_pipeline (PRef 0) [(PStr ''return_state'', PBool True)] [sample_state]
        of (r, p', h') \<Rightarrow> (r, h'))
        = (Inr (PRef 0), [[(PStr ''query'', PStr ''hi''), (PStr ''response'', PStr ''answer'')]])
   \<and> (case call (fst (snd (call two_step_pipeline (PRef 0) [] [sample_state]))) (PRef 0)
              [(PStr ''return_state'', PBool True)] [sample_state]
        of (r, p', h') \<Rightarrow> (r, h'))
        = (Inr (PRef 0), [[(PStr ''query'', PStr ''hi''), (PStr ''response'', PStr ''answer'')]])"
proof -
  let ?sr = "\<lparr>addr = 0, llm = 0, listener = \<lparr>listeners = []\<rparr>\<rparr>"
  let ?kw = "[(PStr ''return_state'', PBool True)]"
  have a: "transforms two_step_pipeline = Some [drafting, answering]"
    and b: "\<not> run_in_parallel two_step_pipeline"
    and d: "shared two_step_pipeline = Some ?sr"
    by (simp_all add: two_step_pipeline_def eval_defs)
  have e: "noop_listeners (listeners (listener ?sr))"
    by (simp add: noop_listeners_def)
  have f: "leaf_child two_step_pipeline drafting" "leaf_child two_step_pipeline answering"
    by (simp_all add: leaf_child_def two_step_pipeline_def drafting_def answering_def
        BasePipeline_init_def BaseTransform_init_def)
  then have f': "\<forall>c \<in> set [drafting, answering]. leaf_child two_step_pipeline c"
    by simp
  have g: "fold_transforms [drafting, answering] (PRef 0) [sample_state]
        = (Inr (PRef 0), [[(PStr ''query'', PStr ''hi''), (PStr ''response'', PStr ''answer'')]])"
    by (simp add: drafting_def answering_def BaseTransform_init_def write_response_def sample_state_def)
  have t: "transform two_step_pipeline = BasePipeline_transform (KStr ''response'')"
    by (simp add: two_step_pipeline_def eval_defs)
  have first: "(case call two_step_pipeline (PRef 0) ?kw [sample_state] of (r, p', h') \<Rightarrow> (r, h'))
        = (Inr (PRef 0), [[(PStr ''query'', PStr ''hi''), (PStr ''response'', PStr ''answer'')]])"
    using sequential_run_is_fold[OF a b d e f', of "PRef 0" ?kw "[sample_state]"]
    unfolding g t by (simp add: BasePipeline_transform_def)
  let ?p1 = "fst (snd (call two_step_pipeline (PRef 0) [] [sample_state]))"
  have p1: "?p1 = BaseTransform ''BasePipeline'' (KList [''query'', ''history'', ''doc_ids''])
      (KStr ''response'') (Some ?sr) []
      (Some [set_inited True (set_shared (Some ?sr) (rename ''BasePipeline'' drafting)),
             set_inited True (set_shared (Some ?sr) (rename ''BasePipeline'' answering))])
      False True (BasePipeline_transform (KStr ''response'')) BasePipeline_stream_transform True"
    by (simp add: two_step_pipeline_def drafting_def answering_def write_response_def
        sample_state_def eval_defs)
  have a1: "transforms ?p1 = Some [set_inited True (set_shared (Some ?sr) (rename ''BasePipeline'' drafting)),
             set_inited True (set_shared (Some ?sr) (rename ''BasePipeline'' answering))]"
    and b1: "\<not> run_in_parallel ?p1" and d1: "shared ?p1 = Some ?sr"
    and t1: "transform ?p1 = BasePipeline_transform (KStr ''response'')"
    unfolding p1 by simp_all
  have f1: "\<forall>c \<in> set [set_inited True (set_shared (Some ?sr) (rename ''BasePipeline'' drafting)),
             set_inited True (set_shared (Some ?sr) (rename ''BasePipeline'' answering))].
            leaf_child ?p1 c"
    using e by (simp add: leaf_child_def drafting_def answering_def BaseTransform_init_def)
  have g1: "fold_transforms [set_inited True (set_shared (Some ?sr) (rename ''BasePipeline'' drafting)),
             set_inited True (set_shared (Some ?sr) (rename ''BasePipeline'' answering))]
          (PRef 0) [sample_state]
        = (Inr (PRef 0), [[(PStr ''query'', PStr ''hi''), (PStr ''response'', PStr ''answer'')]])"
    by (simp add: drafting_def answering_def BaseTransform_init_def write_response_def sample_state_def)
  have second: "(case call ?p1 (PRef 0) ?kw [sample_state] of (r, p', h') \<Rightarrow> (r, h'))
        = (Inr (PRef 0), [[(PStr ''query'', PStr ''hi''), (PStr ''response'', PStr ''answer'')]])"
    using sequential_run_is_fold[OF a1 b1 d1 e f1, of "PRef 0" ?kw "[sample_state]"]
    unfolding g1 t1 by (simp add: BasePipeline_transform_def)
  from a b f g first second show ?thesis by simp
qed

text \<open>
  Claim C3 as stated fails for a child that has children of its own: its step runs them
  too, which the fold of the children's \<open>transform\<close> does not. In \<open>nested_pipeline\<close> the
  first child is a stage whose child writes the response.
\<close>

theorem sequential_run_is_fold_counterexample:
  "transforms nested_pipeline = Some [staged, bare_node]
   \<and> \<not> run_in_parallel nested_pipeline
   \<and> (case call nested_pipeline (PRef 0) [(PStr ''return_state'', PBool True)] [sample_state]
        of (r, p', h') \<Rightarrow> (r, h'))
        = (Inr (PRef 0), [[(PStr ''query'', PStr ''hi''), (PStr ''response'', PStr ''answer'')]])
   \<and> (case fold_transforms [staged, bare_node] (PRef 0) [sample_state] of
            (Inl e, h1) \<Rightarrow> (Inl e, h1)
          | (Inr s, h1) \<Rightarrow>
              transform nested_pipeline s [(PStr ''return_state'', PBool True)] h1)
        = (Inr (PRef 0), [[(PStr ''query'', PStr ''hi'')]])"
  by (simp add: nested_pipeline_def staged_def answering_def bare_node_def write_response_def
      sample_state_def eval_defs)

subsection \<open>Streaming a pipeline of one leaf\<close>

text \<open>
  Claim C2, amended. A pipeline of one leaf whose \<open>stream_transform\<close> yields three states:
  the streaming entry point yields four values, the three states of the leaf in emission
  order and then the input state, which the root's own \<open>stream_transform\<close> passes through.
  The non-streaming entry point does not consume \<open>stream_transform\<close>: it returns what
  \<open>BasePipeline.transform\<close> makes of the value returned by the leaf's \<open>transform\<close> (for a
  leaf that is itself an instance of \<open>BasePipeline\<close>, of the value its \<open>transform\<close> returns
  on the empty state its \<open>__call__\<close> starts from).
\<close>

theorem one_leaf_stream_and_run:
  assumes "p = BasePipeline_init cls (Some [leaf]) ik ok ls llm_handle a"
    and "transforms leaf = None" and "\<not> inited leaf"
    and "noop_listeners (listeners (TranformBatchListener_init ls))"
    and "stream_transform leaf (PRef (length h)) [] (h @ [q]) = (([s1, s2, s3], None), h1)"
    and "transform leaf (PRef (length h)) [] (h @ [q]) = (Inr v, h2)"
  shows "fst (BasePipeline_stream p q h) = ([s1, s2, s3, PRef (length h)], None)
       \<and> fst (BasePipeline_call p return_state q h)
           = (if is_pipeline leaf
              then (case transform leaf (PRef (Suc (length h)))
                           [(PStr ''return_state'', PRef (length h))] (h @ [q, []]) of
                      (Inl e, h') \<Rightarrow> Inl e
                    | (Inr v', h') \<Rightarrow>
                        fst (BasePipeline_transform ok v'
                               [(PStr ''return_state'', PBool return_state)] h'))
              else fst (BasePipeline_transform ok v [(PStr ''return_state'', PBool return_state)] h2))"
proof -
  let ?sr = "\<lparr>addr = a, llm = llm_handle, listener = TranformBatchListener_init ls\<rparr>"
  let ?f = "\<lambda>c. set_inited True (set_shared (Some ?sr) (rename (name p) c))"
  let ?kw = "[(PStr ''return_state'', PBool return_state)]"
  have ts: "transforms p = Some [leaf]" and ni: "\<not> inited p" and sh: "shared p = Some ?sr"
    and par: "\<not> run_in_parallel p" and at: "attrs p = []"
    and tf: "transform p = BasePipeline_transform ok"
    and stf: "stream_transform p = BasePipeline_stream_transform"
    by (simp_all add: assms(1) BasePipeline_init_def)
  have nl: "noop_listeners (listeners (listener ?sr))"
    using assms(4) by simp
  have po: "py_or None (shared p) = Some ?sr"
    using sh by (simp add: py_or_def)
  have lf: "snd (init (Some ?sr) (rename (name p) leaf)) = ?f leaf"
    using assms(2,3) by (simp add: init_leaf)
  obtain p0 where i0: "init None p = (None, p0)"
    and j: "shared p0 = Some ?sr" "\<not> run_in_parallel p0" "transforms p0 = Some [?f leaf]"
    and h0: "transform p0 = transform p" "stream_transform p0 = stream_transform p"
    using init_fresh[OF ni po] ts at par lf by simp
  have l': "inited (?f leaf)" "transforms (?f leaf) = None" "shared (?f leaf) = Some ?sr"
    using assms(2) by simp_all
  have sl: "stream (?f leaf) (PRef (length h)) [] (h @ [q]) = (([s1, s2, s3], None), ?f leaf, h1)"
    by (simp add: stream_leaf[OF l' nl] assms(5))
  have sub: "run_sub_streams p0 (PRef (length h)) (h @ [q])
      = (([s1, s2, s3], None), set_transforms (Some [?f leaf]) p0, h1)"
    using j(2,3) by (simp add: run_sub_streams.simps sl)
  have sh': "\<And>x. shared (set_transforms (Some [x]) p0) = Some ?sr"
    using j(1) by simp
  have A: "fst (BasePipeline_stream p q h) = ([s1, s2, s3, PRef (length h)], None)"
    unfolding BasePipeline_stream_def
    by (subst stream.simps)
      (simp add: i0 h0 stf broadcast_noop[OF j(1) nl] broadcast_noop[OF sh' nl] sub
        BasePipeline_stream_transform_def)
  have run: "\<And>st kws hh res hr.
      child_call (?f leaf) (PRef (length h)) (h @ [q]) = (res, ?f leaf, hr) \<Longrightarrow>
      fst (call p (PRef (length h)) ?kw (h @ [q]))
        = (case res of Inl e \<Rightarrow> Inl e
           | Inr v' \<Rightarrow> fst (BasePipeline_transform ok v' ?kw hr))"
  proof -
    fix res hr
    assume cc: "child_call (?f leaf) (PRef (length h)) (h @ [q]) = (res, ?f leaf, hr)"
    have rs: "run_seq [?f leaf] (PRef (length h)) (h @ [q])
        = (res, [?f leaf], hr)"
      using cc by (cases res) (simp_all add: run_seq_Cons)
    have sb: "run_sub_transforms p0 (PRef (length h)) (h @ [q])
        = (res, set_transforms (Some [?f leaf]) p0, hr)"
      using j(2,3) by (simp add: run_sub_transforms.simps rs)
    show "fst (call p (PRef (length h)) ?kw (h @ [q]))
        = (case res of Inl e \<Rightarrow> Inl e
           | Inr v' \<Rightarrow> fst (BasePipeline_transform ok v' ?kw hr))"
      by (subst call.simps)
        (simp add: i0 h0 tf broadcast_noop[OF j(1) nl] broadcast_noop[OF sh' nl] sb
          split: prod.splits sum.splits)
  qed
  have B: "fst (BasePipeline_call p return_state q h)
           = (if is_pipeline leaf
              then (case transform leaf (PRef (Suc (length h)))
                           [(PStr ''return_state'', PRef (length h))] (h @ [q, []]) of
                      (Inl e, h') \<Rightarrow> Inl e
                    | (Inr v', h') \<Rightarrow> fst (BasePipeline_transform ok v' ?kw h'))
              else fst (BasePipeline_transform ok v ?kw h2))"
  proof (cases "is_pipeline leaf")
    case False
    have "child_call (?f leaf) (PRef (length h)) (h @ [q]) = (Inr v, ?f leaf, h2)"
      using False by (simp add: child_call_def call_leaf[OF l' nl] assms(6))
    from run[OF this] False show ?thesis
      by (simp add: BasePipeline_call_def)
  next
    case True
    obtain res hr where t: "transform leaf (PRef (Suc (length h)))
        [(PStr ''return_state'', PRef (length h))] (h @ [q, []]) = (res, hr)"
      by (cases "transform leaf (PRef (Suc (length h)))
        [(PStr ''return_state'', PRef (length h))] (h @ [q, []])")
    have "child_call (?f leaf) (PRef (length h)) (h @ [q]) = (res, ?f leaf, hr)"
      using True t by (simp add: child_call_def call_leaf[OF l' nl])
    from run[OF this] True t show ?thesis
      by (simp add: BasePipeline_call_def split: sum.splits)
  qed
  from A B show ?thesis by simp
qed

theorem one_leaf_stream_and_run_witness:
  "\<not> inited streaming_leaf \<and> transforms streaming_leaf = None
   \<and> noop_listeners [TransformListener_default]
   \<and> fst (BasePipeline_stream observed_leaf_pipeline sample_state [])
        = ([PRef 1, PRef 2, PRef 3, PRef 0], None)
   \<and> fst (BasePipeline_call observed_leaf_pipeline True sample_state []) = Inr (PRef 0)"
proof -
  have a: "transforms streaming_leaf = None" and b: "\<not> inited streaming_leaf"
    by (simp_all add: streaming_leaf_def BaseTransform_init_def)
  have c: "noop_listeners (listeners (TranformBatchListener_init (Some [TransformListener_default])))"
    by (simp add: noop_listeners_def TranformBatchListener_init_def TransformListener_default_def pass_def)
  have d: "stream_transform streaming_leaf (PRef (length [])) [] ([] @ [sample_state])
      = (([PRef 1, PRef 2, PRef 3], None),
         [sample_state, [(PStr ''response'', PStr ''a'')], [(PStr ''response'', PStr ''ab'')],
           [(PStr ''response'', PStr ''abc'')]])"
    by (simp add: streaming_leaf_def BaseTransform_init_def three_states_def)
  have e: "transform streaming_leaf (PRef (length [])) [] ([] @ [sample_state])
      = (Inr (PRef 0), [sample_state])"
    by (simp add: streaming_leaf_def BaseTransform_init_def BaseTransform_transform_def)
  have f: "\<not> is_pipeline streaming_leaf"
    by (simp add: streaming_leaf_def BaseTransform_init_def)
  from one_leaf_stream_and_run[OF observed_leaf_pipeline_def a b c d e, of True] a b c f
  show ?thesis
    by (simp add: BasePipeline_transform_def TranformBatchListener_init_def)
qed

text \<open>
  Claim C2 as stated fails: the stream of the one-leaf pipeline has four elements, and
  \<open>run\<close> returns the projected field (or the input state), not the last streamed state.
\<close>

theorem one_leaf_stream_counterexample:
  "fst (BasePipeline_stream one_leaf_pipeline sample_state [])
     = ([PRef 1, PRef 2, PRef 3, PRef 0], None)
   \<and> length (fst (fst (BasePipeline_stream one_leaf_pipeline sample_state []))) \<noteq> 3
   \<and> fst (BasePipeline_call one_leaf_pipeline False sample_state []) = Inr PNone
   \<and> fst (BasePipeline_call one_leaf_pipeline True sample_state []) = Inr (PRef 0)"
proof -
  have s: "fst (BasePipeline_stream one_leaf_pipeline sample_state [])
     = ([PRef 1, PRef 2, PRef 3, PRef 0], None)"
    by (simp add: BasePipeline_stream_def one_leaf_pipeline_def streaming_leaf_def three_states_def
        sample_state_def stream.simps run_sub_streams.simps eval_defs)
  have c1: "fst (BasePipeline_call one_leaf_pipeline False sample_state []) = Inr PNone"
    by (simp add: BasePipeline_call_def one_leaf_pipeline_def streaming_leaf_def
        sample_state_def eval_defs)
  have c2: "fst (BasePipeline_call one_leaf_pipeline True sample_state []) = Inr (PRef 0)"
    by (simp add: BasePipeline_call_def one_leaf_pipeline_def streaming_leaf_def
        sample_state_def eval_defs)
  from s c1 c2 show ?thesis by simp
qed

subsection \<open>One-shot initialisation of a tree\<close>

lemma declared_nodes_unfold:
  "declared_nodes n = n # (case transforms n of None \<Rightarrow> [] | Some l \<Rightarrow> concat (map declared_nodes l))"
  by (cases n) simp

lemma qualified_names_unfold:
  "qualified_names nm n = nm # (case transforms n of None \<Rightarrow> []
           | Some l \<Rightarrow> concat (map (\<lambda>c. qualified_names (nm @ ''::'' @ name c) c) l))"
  by (cases n) simp

declare declared_nodes.simps [simp del] qualified_names.simps [simp del]

lemma qualified_names_rename [simp]: "qualified_names nm (rename p t) = qualified_names nm t"
  by (subst (1 2) qualified_names_unfold) simp

lemma fresh_root: "fresh n \<Longrightarrow> \<not> inited n"
  by (subst (asm) fresh_def, subst (asm) declared_nodes_unfold) simp

lemma fresh_child: "fresh n \<Longrightarrow> transforms n = Some ts \<Longrightarrow> t \<in> set ts \<Longrightarrow> fresh t"
  by (subst (asm) fresh_def, subst (asm) declared_nodes_unfold) (auto simp: fresh_def)

lemma fresh_rename [simp]: "fresh (rename p t) = fresh t"
  unfolding fresh_def by (subst (1 2) declared_nodes_unfold) simp

lemma init_fresh_arg:
  assumes "\<not> inited n" "py_or arg (shared n) = Some s"
  shows "init arg n = init (Some s) n"
  using init_fresh[OF assms] init_fresh[OF assms(1), of "Some s" s]
  by (simp add: py_or_def)

lemma init_propagates:
  "fresh n \<Longrightarrow>
   (\<forall>m \<in> set (declared_nodes (snd (init (Some s) n))). shared m = Some s \<and> inited m)
   \<and> map name (declared_nodes (snd (init (Some s) n))) = qualified_names (name n) n"
proof (induction n rule: measure_induct_rule[of nsize])
  case (less n)
  let ?f = "\<lambda>t. snd (init (Some s) (rename (name n) t))"
  have ni: "\<not> inited n" using less.prems by (rule fresh_root)
  have po: "py_or (Some s) (shared n) = Some s" by (simp add: py_or_def)
  show ?case
  proof (cases "transforms n")
    case None
    have "init (Some s) n = (None, set_inited True (set_shared (Some s) n))"
      using init_fresh[OF ni po] None by simp
    then show ?thesis
      using None
      by (simp add: declared_nodes_unfold[of "set_inited True (set_shared (Some s) n)"]
          qualified_names_unfold[of "name n" n])
  next
    case (Some ts)
    let ?r = "set_inited True (set_attrs (map ?f (attrs n))
                (set_transforms (Some (map ?f ts)) (set_shared (Some s) n)))"
    have eq: "init (Some s) n = (None, ?r)"
      using init_fresh[OF ni po] Some by simp
    have ch: "\<And>t. t \<in> set ts \<Longrightarrow>
        (\<forall>m \<in> set (declared_nodes (?f t)). shared m = Some s \<and> inited m)
        \<and> map name (declared_nodes (?f t)) = qualified_names (name n @ ''::'' @ name t) t"
    proof -
      fix t assume t: "t \<in> set ts"
      have "nsize t \<le> lsize ts" using t
        by (induction ts) auto
      with nsize_children[OF Some] have sz: "nsize (rename (name n) t) < nsize n" by simp
      have fr: "fresh (rename (name n) t)"
        using fresh_child[OF less.prems Some t] by simp
      from less.IH[OF sz fr]
      show "(\<forall>m \<in> set (declared_nodes (?f t)). shared m = Some s \<and> inited m)
        \<and> map name (declared_nodes (?f t)) = qualified_names (name n @ ''::'' @ name t) t"
        by simp
    qed
    have dn: "declared_nodes ?r = ?r # concat (map (\<lambda>t. declared_nodes (?f t)) ts)"
      by (subst declared_nodes_unfold) (simp add: comp_def)
    have a: "\<forall>m \<in> set (declared_nodes ?r). shared m = Some s \<and> inited m"
      unfolding dn using ch by auto
    have "map name (declared_nodes ?r)
        = name n # concat (map (\<lambda>t. map name (declared_nodes (?f t))) ts)"
      unfolding dn by (simp add: map_concat comp_def)
    also have "concat (map (\<lambda>t. map name (declared_nodes (?f t))) ts)
        = concat (map (\<lambda>t. qualified_names (name n @ ''::'' @ name t) t) ts)"
      using ch by (intro arg_cong[where f = concat] map_cong refl) simp
    finally have b: "map name (declared_nodes ?r) = qualified_names (name n) n"
      using Some by (simp add: qualified_names_unfold[of "name n" n])
    from a b show ?thesis unfolding eq by simp
  qed
qed

lemma init_twice: "init arg (snd (init arg n)) = init arg n"
proof (cases "fst (init arg n)")
  case None
  then have "inited (snd (init arg n))" by (rule init_result_inited)
  then have "init arg (snd (init arg n)) = (None, snd (init arg n))" by (rule init_inited)
  with None show ?thesis by (metis prod.collapse)
next
  case (Some e)
  then have "\<not> inited n \<and> shared n = None \<and> arg = None"
    using init_ok(1)[of arg n] by (cases arg; cases "shared n"; cases "inited n") auto
  then have "init arg n = (Some (RuntimeError ''SharedResource not provided.''), n)"
    by (simp add: init.simps)
  then show ?thesis by simp
qed

lemma initialize_times_once: "1 \<le> N \<Longrightarrow> initialize_times N arg n = init arg n"
proof (induction N arbitrary: n)
  case 0
  then show ?case by simp
next
  case (Suc k)
  obtain r n' where i: "init arg n = (r, n')" by (cases "init arg n")
  show ?case
  proof (cases r)
    case (Some e)
    with i show ?thesis by simp
  next
    case None
    show ?thesis
    proof (cases k)
      case 0
      with i None show ?thesis by simp
    next
      case (Suc j)
      then have "initialize_times k arg n' = init arg n'" using Suc.IH by simp
      moreover have "init arg n' = init arg n"
        using init_twice[of arg n] i by simp
      ultimately show ?thesis using i None by simp
    qed
  qed
qed

text \<open>
  Claim C4, amended. \<open>initialize\<close> invoked \<open>N \<ge> 1\<close> times does what one invocation does,
  and a second invocation changes nothing, on every tree. When the tree is new (none of its
  nodes has been initialised; each node object occurs once in it) and the invocation
  succeeds, every node of the tree holds the
  same resource instance (the argument, or else the root's own), every node is marked
  initialised, and the names of the nodes are the root's name and, for every other node, its
  parent's new name, \<open>::\<close> and its own name: each child was renamed exactly once.
\<close>

theorem initialize_once_propagates_resource:
  assumes "1 \<le> N"
  shows "initialize_times N arg n = init arg n
       \<and> init arg (snd (init arg n)) = init arg n
       \<and> (fresh n \<and> fst (init arg n) = None \<longrightarrow>
            (\<exists>s. py_or arg (shared n) = Some s
               \<and> (\<forall>m \<in> set (declared_nodes (snd (init arg n))). shared m = Some s \<and> inited m))
            \<and> map name (declared_nodes (snd (init arg n))) = qualified_names (name n) n)"
proof -
  have "fresh n \<and> fst (init arg n) = None \<longrightarrow>
            (\<exists>s. py_or arg (shared n) = Some s
               \<and> (\<forall>m \<in> set (declared_nodes (snd (init arg n))). shared m = Some s \<and> inited m))
            \<and> map name (declared_nodes (snd (init arg n))) = qualified_names (name n) n"
  proof
    assume "fresh n \<and> fst (init arg n) = None"
    then have fr: "fresh n" and ok: "fst (init arg n) = None" by simp_all
    have ni: "\<not> inited n" using fr by (rule fresh_root)
    with ok have "\<not> (shared n = None \<and> arg = None)"
      by (auto simp: init.simps split: if_splits)
    then obtain s where s: "py_or arg (shared n) = Some s"
      by (cases arg; cases "shared n") (auto simp: py_or_def)
    from init_propagates[OF fr, of s] init_fresh_arg[OF ni s] s
    show "(\<exists>s. py_or arg (shared n) = Some s
               \<and> (\<forall>m \<in> set (declared_nodes (snd (init arg n))). shared m = Some s \<and> inited m))
            \<and> map name (declared_nodes (snd (init arg n))) = qualified_names (name n) n"
      by simp
  qed
  then show ?thesis
    using initialize_times_once[OF assms, of arg n] init_twice[of arg n] by simp
qed

theorem initialize_once_propagates_resource_witness:
  "\<not> inited nested_pipeline \<and> \<not> inited staged \<and> \<not> inited answering \<and> \<not> inited bare_node
   \<and> initialize_times 3 None nested_pipeline = init None nested_pipeline
   \<and> fst (init None nested_pipeline) = None
   \<and> map name (declared_nodes (snd (init None nested_pipeline)))
       = [''BasePipeline'', ''BasePipeline::Stage'', ''BasePipeline::Stage::Generation'',
          ''BasePipeline::Retriever'']
   \<and> map (\<lambda>m. map_option addr (shared m)) (declared_nodes (snd (init None nested_pipeline)))
       = [Some 7, Some 7, Some 7, Some 7]"
proof -
  have f: "fresh nested_pipeline"
    by (simp add: fresh_def nested_pipeline_def staged_def answering_def bare_node_def
        BasePipeline_init_def BaseTransform_init_def declared_nodes.simps)
  have n: "(1::nat) \<le> 3" by simp
  have i: "fst (init None nested_pipeline) = None"
    by (simp add: nested_pipeline_def staged_def answering_def bare_node_def eval_defs)
  have q: "qualified_names (name nested_pipeline) nested_pipeline
       = [''BasePipeline'', ''BasePipeline::Stage'', ''BasePipeline::Stage::Generation'',
          ''BasePipeline::Retriever'']"
    by (simp add: nested_pipeline_def staged_def answering_def bare_node_def
        BasePipeline_init_def BaseTransform_init_def qualified_names.simps)
  have a: "map (\<lambda>m. map_option addr (shared m)) (declared_nodes (snd (init None nested_pipeline)))
       = [Some 7, Some 7, Some 7, Some 7]"
    by (simp add: nested_pipeline_def staged_def answering_def bare_node_def eval_defs
        declared_nodes.simps)
  have u: "\<not> inited nested_pipeline \<and> \<not> inited staged \<and> \<not> inited answering \<and> \<not> inited bare_node"
    by (simp add: nested_pipeline_def staged_def answering_def bare_node_def
        BasePipeline_init_def BaseTransform_init_def)
  from initialize_once_propagates_resource[OF n, of None nested_pipeline] f i q a u
  show ?thesis by simp
qed

text \<open>
  Claim C4 as stated fails on a tree one of whose nodes was initialised before: the guard
  of \<open>_init\<close> returns at once on that node, which keeps the resource it has. In
  \<open>reused_pipeline\<close> the child was constructed with a resource of its own and run by itself
  before the pipeline is initialised.
\<close>

theorem initialize_once_counterexample:
  "fst (init None reused_pipeline) = None
   \<and> map (\<lambda>m. map_option addr (shared m)) (declared_nodes (snd (init None reused_pipeline)))
       = [Some 0, Some 1]
   \<and> map inited (declared_nodes (snd (init None reused_pipeline))) = [True, True]
   \<and> map name (declared_nodes (snd (init None reused_pipeline)))
       = [''BasePipeline'', ''BasePipeline::Generation'']"
  by (simp add: reused_pipeline_def seasoned_generation_def own_resource_def eval_defs
      declared_nodes.simps)

subsection \<open>Listeners without effect on what is computed\<close>

lemma set_listeners_sel [simp]:
  "name (set_listeners ls n) = name n"
  "input_key (set_listeners ls n) = input_key n"
  "output_key (set_listeners ls n) = output_key n"
  "shared (set_listeners ls n) = map_option (with_listeners ls) (shared n)"
  "attrs (set_listeners ls n) = map (set_listeners ls) (attrs n)"
  "transforms (set_listeners ls n) = map_option (map (set_listeners ls)) (transforms n)"
  "run_in_parallel (set_listeners ls n) = run_in_parallel n"
  "inited (set_listeners ls n) = inited n"
  "transform (set_listeners ls n) = transform n"
  "stream_transform (set_listeners ls n) = stream_transform n"
  "is_pipeline (set_listeners ls n) = is_pipeline n"
  by (cases n; simp)+






lemma sequential_setters [simp]:
  "sequential (set_name v0 n) = sequential n"
  "sequential (set_shared v1 n) = sequential n"
  "sequential (set_attrs v2 n) = sequential n"
  "sequential (set_inited v4 n) = sequential n"
  "sequential (rename p n) = sequential n"
  by (cases n; simp add: rename_def)+




lemma with_listeners_twice [simp]: "with_listeners ls (with_listeners ls' sr) = with_listeners ls sr"
  by (simp add: with_listeners_def)

lemma set_listeners_twice [simp]: "set_listeners ls (set_listeners ls' n) = set_listeners ls n"
proof (induction n)
  case (BaseTransform nm ik ok sh as ts par ini tf stf pl)
  have a: "map (\<lambda>x. set_listeners ls (set_listeners ls' x)) as = map (set_listeners ls) as"
    using BaseTransform(1) by (intro map_cong refl) simp
  have b: "map_option (map (\<lambda>x. set_listeners ls (set_listeners ls' x))) ts
         = map_option (map (set_listeners ls)) ts"
  proof (cases ts)
    case None
    then show ?thesis by simp
  next
    case (Some l)
    have "map (\<lambda>x. set_listeners ls (set_listeners ls' x)) l = map (set_listeners ls) l"
      using BaseTransform(2)[of l] Some by (intro map_cong refl) simp
    with Some show ?thesis by simp
  qed
  show ?case
    by (simp add: option.map_comp comp_def a b)
qed








text \<open>The result of a run that has ended or was cancelled does not depend on the fuel.\<close>

lemma schedule_more_fuel:
  "schedule fuel q gs h \<noteq> Unfinished \<Longrightarrow> schedule (fuel + d) q gs h = schedule fuel q gs h"
proof (induction fuel q gs h rule: schedule.induct)
  case (1 q gs h)
  then show ?case by simp
next
  case (2 fuel gs h)
  then show ?case by simp
next
  case (3 fuel t g q gs h)
  then show ?case
    by (cases "segment t g q gs h") auto
qed




end
